theory Spec2Isabelle
  imports Complex_Main "HOL-Library.Word"
begin

section \<open>Data model of gatsby-typegen-remark (gatsby-node.js)\<close>

text \<open>
  A node of a unist/mdast syntax tree: its \<open>type\<close>, the \<open>value\<close> of a literal node, the
  \<open>depth\<close> of a heading, and its \<open>children\<close> (a node without children has the empty list;
  the traversals below treat a missing \<open>children\<close> field and an empty one alike).
\<close>

datatype unist = Unist (utype: string) (uvalue: "string option") (udepth: "int option")
  (uchildren: "unist list")

text \<open>One entry of \<open>markdownNode.headings\<close>: \<open>{ value, depth }\<close>.\<close>

record heading =
  heading_value :: "string option"
  heading_depth :: "int option"

text \<open>
  The content record handed to the resolvers (\<open>markdownNode\<close>): \<open>id\<close>, \<open>type\<close>, \<open>src\<close>, and
  the three fields this module attaches, each absent until it is assigned.
\<close>

record mdnode =
  node_id :: string
  node_type :: string
  src :: string
  ast :: "unist option"
  html :: "string option"
  headings :: "heading list option"

text \<open>
  How the promise returned by a plugin call settles, and what one callable export of a
  plugin does: it may throw synchronously when called; otherwise it returns a promise
  (or a plain value, which \<open>Promise.all\<close> treats as fulfilled) and, before that promise
  settles, has applied its \<open>effect\<close> to the object it was given (the record's \<open>src\<close> for
  \<open>mutateSource\<close>, the syntax tree for the annotating export).
\<close>

datatype settle = Fulfil | Reject string

record 'a capability =
  throws :: "string option"
  effect :: "'a \<Rightarrow> 'a"
  settles :: settle

text \<open>
  A required plugin module: \<open>_.isFunction(requiredPlugin.mutateSource)\<close> and
  \<open>_.isFunction(requiredPlugin)\<close> decide which of the two exports exist.
\<close>

record plugin =
  mutateSource :: "string capability option"
  annotate :: "unist capability option"

text \<open>
  The state of the promise \<open>new Promise((resolve, reject) => ...)\<close> built by \<open>getAST\<close>, as its
  waiters see it. It is only ever resolved with \<open>markdownNode\<close>, the record of its own run:
  the value of a fulfilled promise is that object.
\<close>

datatype promise_state = Pending | Fulfilled | Rejected string

datatype slot = Waiting | Settled

datatype phase = Mutating | Annotating unist | Complete

text \<open>
  One pipeline run, i.e. one execution of the executor of \<open>getAST\<close>: the record and the
  plugins its closures captured, the \<open>Promise.all\<close> it currently waits for (one slot for
  each plugin), the rejection of an inner promise chain if there was one, and the state of
  the promise stored in the cache.
\<close>

record run =
  run_node :: mdnode
  run_plugins :: "plugin list"
  run_phase :: phase
  run_slots :: "slot list"
  run_failed :: "string option"
  run_promise :: promise_state

text \<open>What the pipeline has done so far, newest first; \<open>nat\<close> arguments are the run and the plugin index.\<close>

datatype action =
    Called_mutateSource nat nat
  | Settled_mutateSource nat nat settle
  | Parsed nat string
  | Called_annotate nat nat
  | Settled_annotate nat nat settle
  | Resolved nat

text \<open>
  What a cache lookup yields: a promise (named by its index) or, for a key that
  \<open>Object.prototype\<close> defines, the inherited value.
\<close>

datatype cache_value = Promise_handle nat | Inherited string

text \<open>
  The promise built by \<open>getHTML\<close>: it waits for what \<open>getAST\<close> returned, then renders and
  resolves with the record it was given, the record of that run.
\<close>

datatype html_promise = Html_waiting cache_value | Html_fulfilled nat

text \<open>
  One invocation of \<open>extendNodeType\<close> for the type \<open>MarkdownRemark\<close>: the closures it builds
  share \<open>pluginOptions\<close> and the \<open>htmlPromisesCache\<close> declared inside that invocation.
\<close>

record invocation =
  inst_plugins :: "plugin list"
  htmlPromisesCache :: "string \<rightharpoonup> nat"

text \<open>
  The module state: the module-level \<open>astPromiseCache\<close> (own properties of the object),
  the runs and HTML promises created so far (a promise is named by its index), the
  invocations of \<open>extendNodeType\<close>, and the log.
\<close>

record state =
  astPromiseCache :: "string \<rightharpoonup> nat"
  runs :: "run list"
  html_promises :: "html_promise list"
  invocations :: "invocation list"
  log :: "action list"

definition initial_state :: state where
  "initial_state = \<lparr>astPromiseCache = Map.empty, runs = [], html_promises = [],
     invocations = [], log = []\<rparr>"

section \<open>Cache invalidation: onNodeCreate\<close>

text \<open>
  \<^verbatim>\<open>exports.onNodeCreate = ({ node }) => {
    if (node.type === `MarkdownRemark`) { delete astPromiseCache[node.id] } }\<close>
\<close>

definition onNodeCreate :: "mdnode \<Rightarrow> state \<Rightarrow> state" where
  "onNodeCreate node s =
     (if node_type node = ''MarkdownRemark''
      then s\<lparr>astPromiseCache := (astPromiseCache s)(node_id node := None)\<rparr>
      else s)"

section \<open>The AST cache and the pipeline: getAST\<close>

text \<open>
  Both caches are plain objects (\<open>{}\<close>), so a lookup \<open>cache[id]\<close> that finds no own property
  falls through to \<open>Object.prototype\<close>; for the keys below it yields a function or an object,
  which is truthy like a promise. \<open>delete\<close> and assignment act on own properties only.
\<close>

definition object_prototype_keys :: "string list" where
  "object_prototype_keys = [''constructor'', ''__defineGetter__'', ''__defineSetter__'',
     ''hasOwnProperty'', ''__lookupGetter__'', ''__lookupSetter__'', ''isPrototypeOf'',
     ''propertyIsEnumerable'', ''toString'', ''valueOf'', ''__proto__'', ''toLocaleString'']"

text \<open>The truthy result of \<open>cache[key]\<close>, or \<open>None\<close> when it is \<open>undefined\<close>.\<close>

definition cache_get :: "(string \<rightharpoonup> nat) \<Rightarrow> string \<Rightarrow> cache_value option" where
  "cache_get cache key =
     (case cache key of
        Some h \<Rightarrow> Some (Promise_handle h)
      | None \<Rightarrow> if key \<in> set object_prototype_keys then Some (Inherited key) else None)"

text \<open>
  \<open>pluginOptions.plugins.map(plugin => ...)\<close>, the same shape in both phases: a plugin with
  the export is called and its promise awaited, one without it contributes
  \<open>Promise.resolve()\<close>. The calls are made in the configured order, and a call that throws
  ends the \<open>map\<close>: the result holds the slots built so far, what was called (newest
  first) and the exception.
\<close>

fun dispatch :: "(plugin \<Rightarrow> 'a capability option) \<Rightarrow> (nat \<Rightarrow> action) \<Rightarrow> nat \<Rightarrow> plugin list
    \<Rightarrow> slot list \<times> action list \<times> string option" where
  "dispatch export called i [] = ([], [], None)"
| "dispatch export called i (p # ps) =
     (case export p of
        None \<Rightarrow>
          (case dispatch export called (Suc i) ps of
             (slots, acts, thrown) \<Rightarrow> (Settled # slots, acts, thrown))
      | Some c \<Rightarrow>
          (case throws c of
             Some e \<Rightarrow> ([], [called i], Some e)
           | None \<Rightarrow>
               (case dispatch export called (Suc i) ps of
                  (slots, acts, thrown) \<Rightarrow> (Waiting # slots, acts @ [called i], thrown))))"

text \<open>
  \<open>getAST(markdownNode)\<close> of an invocation whose \<open>pluginOptions.plugins\<close> is the first
  argument. On a hit the cached value is returned. On a miss the executor of the new promise
  runs at once: it makes the \<open>mutateSource\<close> calls (an exception thrown there rejects the
  promise), and the promise is stored under the identifier before \<open>getAST\<close> returns; the
  callbacks of \<open>then\<close> run later, as separate steps. The plugins cannot reach \<open>getAST\<close>, so
  nothing else reads the cache in between. The function is \<open>async\<close>: what the caller holds
  follows the value returned here.
\<close>

definition getAST :: "plugin list \<Rightarrow> mdnode \<Rightarrow> state \<Rightarrow> cache_value \<times> state" where
  "getAST plugins markdownNode s =
     (case cache_get (astPromiseCache s) (node_id markdownNode) of
        Some v \<Rightarrow> (v, s)
      | None \<Rightarrow>
          (let h = length (runs s)
           in case dispatch mutateSource (Called_mutateSource h) 0 plugins of
             (slots, acts, thrown) \<Rightarrow>
               (Promise_handle h,
                s\<lparr>astPromiseCache := (astPromiseCache s)(node_id markdownNode \<mapsto> h),
                  runs := runs s @
                    [\<lparr>run_node = markdownNode, run_plugins = plugins, run_phase = Mutating,
                      run_slots = slots, run_failed = thrown,
                      run_promise = (case thrown of None \<Rightarrow> Pending | Some e \<Rightarrow> Rejected e)\<rparr>],
                  log := acts @ log s\<rparr>)))"

text \<open>
  The first rejection is the one \<open>Promise.all\<close> passes on; later ones change nothing.
\<close>

definition first_failure :: "string option \<Rightarrow> settle \<Rightarrow> string option" where
  "first_failure failed outcome =
     (case failed of
        Some e \<Rightarrow> Some e
      | None \<Rightarrow> (case outcome of Fulfil \<Rightarrow> None | Reject e \<Rightarrow> Some e))"

text \<open>
  The promise returned by plugin \<open>i\<close> to run \<open>h\<close> settles: the plugin has applied its effect
  (to \<open>markdownNode.src\<close> in the first phase, to the tree in the second), and a rejection
  rejects the \<open>Promise.all\<close> of the phase. Nothing in \<open>getAST\<close> handles that rejection:
  \<open>then\<close> is given one callback, and \<open>reject\<close> is never called.
\<close>

definition settle_plugin :: "nat \<Rightarrow> nat \<Rightarrow> state \<Rightarrow> state" where
  "settle_plugin h i s =
     (if h < length (runs s) then
        (let r = runs s ! h
         in if i < length (run_slots r) \<and> i < length (run_plugins r) \<and> run_slots r ! i = Waiting
            then
              (case run_phase r of
                 Mutating \<Rightarrow>
                   (case mutateSource (run_plugins r ! i) of
                      None \<Rightarrow> s
                    | Some c \<Rightarrow>
                        s\<lparr>runs := (runs s)[h := r
                             \<lparr>run_node := (run_node r)\<lparr>src := effect c (src (run_node r))\<rparr>,
                              run_slots := (run_slots r)[i := Settled],
                              run_failed := first_failure (run_failed r) (settles c)\<rparr>],
                          log := Settled_mutateSource h i (settles c) # log s\<rparr>)
               | Annotating markdownAST \<Rightarrow>
                   (case annotate (run_plugins r ! i) of
                      None \<Rightarrow> s
                    | Some c \<Rightarrow>
                        s\<lparr>runs := (runs s)[h := r
                             \<lparr>run_phase := Annotating (effect c markdownAST),
                              run_slots := (run_slots r)[i := Settled],
                              run_failed := first_failure (run_failed r) (settles c)\<rparr>],
                          log := Settled_annotate h i (settles c) # log s\<rparr>)
               | Complete \<Rightarrow> s)
            else s)
      else s)"

text \<open>
  The callback of \<open>Promise.all(...).then(() => ...)\<close> of run \<open>h\<close> runs: it can only when every
  promise of the phase is fulfilled. After the first phase it parses \<open>markdownNode.src\<close>
  (\<open>remark.parse\<close>, a parameter) and makes the annotation calls; after the second it
  assigns \<open>markdownNode.ast\<close> and resolves the cached promise with the record.
\<close>

definition then_callback :: "(string \<Rightarrow> unist) \<Rightarrow> nat \<Rightarrow> state \<Rightarrow> state" where
  "then_callback parse h s =
     (if h < length (runs s) then
        (let r = runs s ! h
         in if run_failed r = None \<and> list_all (\<lambda>x. x = Settled) (run_slots r)
            then
              (case run_phase r of
                 Mutating \<Rightarrow>
                   (let markdownAST = parse (src (run_node r))
                    in case dispatch annotate (Called_annotate h) 0 (run_plugins r) of
                      (slots, acts, thrown) \<Rightarrow>
                        s\<lparr>runs := (runs s)[h := r
                             \<lparr>run_phase := Annotating markdownAST, run_slots := slots,
                              run_failed := thrown\<rparr>],
                          log := acts @ Parsed h (src (run_node r)) # log s\<rparr>)
               | Annotating markdownAST \<Rightarrow>
                   s\<lparr>runs := (runs s)[h := r
                        \<lparr>run_node := (run_node r)\<lparr>ast := Some markdownAST\<rparr>,
                         run_phase := Complete, run_slots := [],
                         run_promise := Fulfilled\<rparr>],
                     log := Resolved h # log s\<rparr>
               | Complete \<Rightarrow> s)
            else s)
      else s)"

section \<open>The HTML cache: extendNodeType and getHTML\<close>

text \<open>
  \<open>extendNodeType({ type, ... }, pluginOptions)\<close>: for another type it returns \<open>{}\<close>; for
  \<open>MarkdownRemark\<close> it builds the closures, with a new empty \<open>htmlPromisesCache\<close>, and
  returns the resolvers (here: the index of the invocation).
\<close>

definition extendNodeType :: "string \<Rightarrow> plugin list \<Rightarrow> state \<Rightarrow> nat option \<times> state" where
  "extendNodeType type_name plugins s =
     (if type_name \<noteq> ''MarkdownRemark'' then (None, s)
      else (Some (length (invocations s)),
            s\<lparr>invocations := invocations s @
                 [\<lparr>inst_plugins = plugins, htmlPromisesCache = Map.empty\<rparr>]\<rparr>))"

text \<open>
  \<open>getHTML(markdownNode)\<close> of invocation \<open>ix\<close>: on a miss the executor calls \<open>getAST\<close> and the
  new promise, stored in the invocation's own cache, waits for what it returned. An index
  that names no invocation names no closure: nothing happens.
\<close>

definition getHTML :: "nat \<Rightarrow> mdnode \<Rightarrow> state \<Rightarrow> cache_value option \<times> state" where
  "getHTML ix markdownNode s =
     (if ix < length (invocations s) then
        (let this = invocations s ! ix
         in case cache_get (htmlPromisesCache this) (node_id markdownNode) of
              Some v \<Rightarrow> (Some v, s)
            | None \<Rightarrow>
                (case getAST (inst_plugins this) markdownNode s of
                   (awaited, s1) \<Rightarrow>
                     (let hp = length (html_promises s1)
                      in (Some (Promise_handle hp),
                          s1\<lparr>html_promises := html_promises s1 @ [Html_waiting awaited],
                             invocations := (invocations s1)[ix := this
                               \<lparr>htmlPromisesCache :=
                                  (htmlPromisesCache this)(node_id markdownNode \<mapsto> hp)\<rparr>]\<rparr>))))
      else (None, s))"

text \<open>
  The callback of \<open>getAST(markdownNode).then(node => ...)\<close> of HTML promise \<open>hp\<close> runs once the
  promise it waits for is fulfilled: it assigns \<open>node.html\<close> on that record (\<open>hastToHTML\<close> of
  \<open>toHAST\<close>, a parameter) and resolves with it.
\<close>

definition html_callback :: "(unist \<Rightarrow> string) \<Rightarrow> nat \<Rightarrow> state \<Rightarrow> state" where
  "html_callback render hp s =
     (if hp < length (html_promises s) then
        (case html_promises s ! hp of
           Html_waiting (Promise_handle h) \<Rightarrow>
             (if h < length (runs s) then
                (case run_promise (runs s ! h) of
                   Fulfilled \<Rightarrow>
                     (case ast (run_node (runs s ! h)) of
                        Some tree \<Rightarrow>
                          s\<lparr>html_promises := (html_promises s)[hp := Html_fulfilled h],
                            runs := (runs s)[h := (runs s ! h)
                               \<lparr>run_node := (run_node (runs s ! h))\<lparr>html := Some (render tree)\<rparr>\<rparr>]\<rparr>
                      | None \<Rightarrow> s)
                 | _ \<Rightarrow> s)
              else s)
         | _ \<Rightarrow> s)
      else s)"

section \<open>Executions\<close>

text \<open>
  What can happen to the module, one event at a time: the host invokes \<open>extendNodeType\<close> or
  \<open>onNodeCreate\<close>, a resolver of some invocation calls \<open>getAST\<close> or \<open>getHTML\<close>, a plugin's
  promise settles, a callback runs.
\<close>

datatype event =
    Invoke_extendNodeType string "plugin list"
  | Call_getAST nat mdnode
  | Call_getHTML nat mdnode
  | Plugin_settles nat nat
  | Then_callback nat
  | Html_callback nat
  | Invoke_onNodeCreate mdnode

definition step :: "(string \<Rightarrow> unist) \<Rightarrow> (unist \<Rightarrow> string) \<Rightarrow> event \<Rightarrow> state \<Rightarrow> state" where
  "step parse render e s =
     (case e of
        Invoke_extendNodeType type_name plugins \<Rightarrow> snd (extendNodeType type_name plugins s)
      | Call_getAST ix markdownNode \<Rightarrow>
          (if ix < length (invocations s)
           then snd (getAST (inst_plugins (invocations s ! ix)) markdownNode s) else s)
      | Call_getHTML ix markdownNode \<Rightarrow> snd (getHTML ix markdownNode s)
      | Plugin_settles h i \<Rightarrow> settle_plugin h i s
      | Then_callback h \<Rightarrow> then_callback parse h s
      | Html_callback hp \<Rightarrow> html_callback render hp s
      | Invoke_onNodeCreate node \<Rightarrow> onNodeCreate node s)"

definition exec :: "(string \<Rightarrow> unist) \<Rightarrow> (unist \<Rightarrow> string) \<Rightarrow> event list \<Rightarrow> state \<Rightarrow> state" where
  "exec parse render es s = foldl (\<lambda>s e. step parse render e s) s es"

text \<open>An event that deletes the AST cache entry of the identifier ends its cache epoch.\<close>

definition invalidates :: "string \<Rightarrow> event \<Rightarrow> bool" where
  "invalidates ident e =
     (case e of
        Invoke_onNodeCreate node \<Rightarrow> node_type node = ''MarkdownRemark'' \<and> node_id node = ident
      | _ \<Rightarrow> False)"

section \<open>Tree traversal: unist-util-select and unist-util-visit\<close>

text \<open>
  Both libraries walk the tree depth-first, a node before its children and the children
  from left to right: the order of the document.
\<close>

fun preorder :: "unist \<Rightarrow> unist list" where
  "preorder (Unist ty v d cs) = Unist ty v d cs # concat (map preorder cs)"

text \<open>\<open>select(tree, `type`)\<close> with a bare type selector: the nodes of that type, in document order.\<close>

definition select :: "unist \<Rightarrow> string \<Rightarrow> unist list" where
  "select tree ty = filter (\<lambda>n. utype n = ty) (preorder tree)"

text \<open>
  \<open>visit(tree, type, visitor)\<close>: the functions \<open>one\<close> and \<open>all\<close> of unist-util-visit. The
  visitor's side effect is a function on the accumulator; the visitors of this module
  return the result of \<open>push\<close>, never \<open>false\<close>, so the walk is never cut short.
\<close>

fun visit_one :: "string \<Rightarrow> (unist \<Rightarrow> 'a \<Rightarrow> 'a) \<Rightarrow> unist \<Rightarrow> 'a \<Rightarrow> 'a"
  and visit_all :: "string \<Rightarrow> (unist \<Rightarrow> 'a \<Rightarrow> 'a) \<Rightarrow> unist list \<Rightarrow> 'a \<Rightarrow> 'a" where
  "visit_one ty visitor (Unist t v d cs) acc =
     visit_all ty visitor cs (if t = ty then visitor (Unist t v d cs) acc else acc)"
| "visit_all ty visitor [] acc = acc"
| "visit_all ty visitor (c # cs) acc = visit_all ty visitor cs (visit_one ty visitor c acc)"

section \<open>Headings: getHeadings and the headings resolver\<close>

text \<open>\<open>_.first\<close> of an array of values that may be \<open>undefined\<close>.\<close>

definition first :: "'a option list \<Rightarrow> 'a option" where
  "first xs = (case xs of [] \<Rightarrow> None | x # _ \<Rightarrow> x)"

definition extract_headings :: "unist \<Rightarrow> heading list" where
  "extract_headings tree =
     map (\<lambda>h. \<lparr>heading_value = first (map uvalue (select h ''text'')), heading_depth = udepth h\<rparr>)
       (select tree ''heading'')"

text \<open>
  \<open>getHeadings(markdownNode)\<close>; the second argument is the \<open>ast\<close> field of the record that
  \<open>await getAST(markdownNode)\<close> yields. A \<open>headings\<close> field already present is returned as
  it is (an array is truthy, the empty one too).
\<close>

definition getHeadings :: "mdnode \<Rightarrow> unist \<Rightarrow> mdnode" where
  "getHeadings markdownNode awaited_ast =
     (case headings markdownNode of
        Some _ \<Rightarrow> markdownNode
      | None \<Rightarrow> markdownNode\<lparr>headings := Some (extract_headings awaited_ast)\<rparr>)"

text \<open>
  The resolver of the field \<open>headings\<close>; \<open>depth\<close> is \<open>None\<close> when the argument is not a
  number (\<open>typeof depth === "number"\<close> fails), and the comparison is \<open>===\<close>.
\<close>

definition headings_resolve :: "mdnode \<Rightarrow> unist \<Rightarrow> int option \<Rightarrow> heading list option" where
  "headings_resolve markdownNode awaited_ast depth =
     (case headings (getHeadings markdownNode awaited_ast) of
        None \<Rightarrow> None
      | Some hs \<Rightarrow>
          (case depth of
             None \<Rightarrow> Some hs
           | Some d \<Rightarrow> Some (filter (\<lambda>h. heading_depth h = Some d) hs)))"

section \<open>Excerpt: the excerpt resolver and underscore.string's prune\<close>

text \<open>
  Characters are UTF-16 code units below 256 (Latin-1). \<open>\w\<close> is \<open>[A-Za-z0-9_]\<close>; \<open>\s\<close>
  and \<open>trimRight\<close> take tab, line feed, vertical tab, form feed, carriage return, space and
  the no-break space; \<open>.\<close> takes everything but the line terminators; a character is cased
  when \<open>c.toUpperCase() !== c.toLowerCase()\<close>.
\<close>

definition is_word_char :: "char \<Rightarrow> bool" where
  "is_word_char c = (let n = (of_char c :: nat) in
     (65 \<le> n \<and> n \<le> 90) \<or> (97 \<le> n \<and> n \<le> 122) \<or> (48 \<le> n \<and> n \<le> 57) \<or> n = 95)"

definition is_space_char :: "char \<Rightarrow> bool" where
  "is_space_char c = (let n = (of_char c :: nat) in (9 \<le> n \<and> n \<le> 13) \<or> n = 32 \<or> n = 160)"

definition is_line_terminator :: "char \<Rightarrow> bool" where
  "is_line_terminator c = (let n = (of_char c :: nat) in n = 10 \<or> n = 13)"

definition is_cased :: "char \<Rightarrow> bool" where
  "is_cased c = (let n = (of_char c :: nat) in
     (65 \<le> n \<and> n \<le> 90) \<or> (97 \<le> n \<and> n \<le> 122) \<or> n = 181
     \<or> (192 \<le> n \<and> n \<le> 214) \<or> (216 \<le> n \<and> n \<le> 246) \<or> (248 \<le> n \<and> n \<le> 255))"

text \<open>\<open>tmpl\<close>: \<open>c.toUpperCase() !== c.toLowerCase() ? 'A' : ' '\<close>.\<close>

definition tmpl :: "char \<Rightarrow> char" where
  "tmpl c = (if is_cased c then CHR ''A'' else CHR '' '')"

text \<open>The lookahead \<open>(?=\W*\w*$)\<close> on the rest of the string.\<close>

definition nonword_then_word :: "string \<Rightarrow> bool" where
  "nonword_then_word rest =
     (dropWhile is_word_char (dropWhile (\<lambda>c. \<not> is_word_char c) rest) = [])"

text \<open>\<open>.replace(/.(?=\W*\w*$)/g, tmpl)\<close>: each character is tested on its own.\<close>

fun replace_tail :: "string \<Rightarrow> string" where
  "replace_tail [] = []"
| "replace_tail (c # rest) =
     (if \<not> is_line_terminator c \<and> nonword_then_word rest then tmpl c else c) # replace_tail rest"

text \<open>
  \<open>.replace(/\s*\S+$/, '')\<close>: the match exists when the string ends in a character that
  is not white space, and starts at the white space before the last run of such characters.
\<close>

definition drop_last_token :: "string \<Rightarrow> string" where
  "drop_last_token t =
     (if t = [] \<or> is_space_char (last t) then t
      else rev (dropWhile is_space_char (dropWhile (\<lambda>c. \<not> is_space_char c) (rev t))))"

definition rtrim :: "string \<Rightarrow> string" where
  "rtrim t = rev (dropWhile is_space_char (rev t))"

text \<open>\<open>str.slice(0, e)\<close> and \<open>str.slice(b)\<close>; a negative index counts from the end.\<close>

definition slice_to :: "string \<Rightarrow> int \<Rightarrow> string" where
  "slice_to str e = (if e < 0 then take (nat (int (length str) + e)) str else take (nat e) str)"

definition slice_from :: "string \<Rightarrow> int \<Rightarrow> string" where
  "slice_from str b = (if b < 0 then drop (nat (int (length str) + b)) str else drop (nat b) str)"

text \<open>\<open>~~length\<close>: conversion to a signed 32-bit integer.\<close>

definition to_int32 :: "int \<Rightarrow> int" where
  "to_int32 n = sint (word_of_int n :: 32 word)"

text \<open>
  \<open>template.slice(template.length - 2).match(/\w\w/)\<close>: the last two characters exist
  and are both word characters.
\<close>

definition ends_in_two_word_chars :: "string \<Rightarrow> bool" where
  "ends_in_two_word_chars t =
     (case slice_from t (int (length t) - 2) of
        [a, b] \<Rightarrow> is_word_char a \<and> is_word_char b
      | _ \<Rightarrow> False)"

text \<open>
  \<open>prune(str, length)\<close> of underscore.string, with the default \<open>pruneStr = '...'\<close>:
  \<^verbatim>\<open>length = ~~length
  if (str.length <= length) return str
  template = str.slice(0, length + 1).replace(/.(?=\W*\w*$)/g, tmpl)
  if (template.slice(template.length - 2).match(/\w\w/))
    template = template.replace(/\s*\S+$/, '')
  else template = rtrim(template.slice(0, template.length - 1))
  return (template + pruneStr).length > str.length
    ? str : str.slice(0, template.length) + pruneStr\<close>
\<close>

definition prune_template :: "string \<Rightarrow> int \<Rightarrow> string" where
  "prune_template str len =
     (let template = replace_tail (slice_to str (len + 1))
      in if ends_in_two_word_chars template then drop_last_token template
         else rtrim (slice_to template (int (length template) - 1)))"

definition prune :: "string \<Rightarrow> int \<Rightarrow> string" where
  "prune str pruneLength =
     (let len = to_int32 pruneLength
      in if int (length str) \<le> len then str
         else let template = prune_template str len
              in if length (template @ ''...'') > length str then str
                 else slice_to str (int (length template)) @ ''...'')"

text \<open>\<open>Array.prototype.join\<close>: an \<open>undefined\<close> element gives the empty string.\<close>

fun join :: "string \<Rightarrow> string option list \<Rightarrow> string" where
  "join sep [] = []"
| "join sep [x] = (case x of None \<Rightarrow> [] | Some v \<Rightarrow> v)"
| "join sep (x # y # ys) = (case x of None \<Rightarrow> [] | Some v \<Rightarrow> v) @ sep @ join sep (y # ys)"

text \<open>
  The resolver of the field \<open>excerpt\<close>, after \<open>getAST\<close> has yielded a record whose \<open>ast\<close> is
  the first argument:
  \<^verbatim>\<open>visit(node.ast, `text`, textNode => textNodes.push(textNode.value))
  return prune(textNodes.join(` `), pruneLength)\<close>
\<close>

definition textNodes :: "unist \<Rightarrow> string option list" where
  "textNodes tree = visit_one ''text'' (\<lambda>textNode acc. acc @ [uvalue textNode]) tree []"

definition excerpt_resolve :: "unist \<Rightarrow> int \<Rightarrow> string" where
  "excerpt_resolve awaited_ast pruneLength = prune (join '' '' (textNodes awaited_ast)) pruneLength"

section \<open>Reading time: the timeToRead resolver\<close>

text \<open>
  The options object handed to sanitize-html is \<open>{ allowTags: [] }\<close>: one key, bound to
  the empty array.
\<close>

definition timeToRead_options :: "(string \<times> string list) list" where
  "timeToRead_options = [(''allowTags'', [])]"

text \<open>
  \<open>Math.round(wordCount / avgWPM)\<close> with \<open>avgWPM = 265\<close>. The quotient of a word count by
  the odd number 265 is never half-way between two integers and lies at least 1/530 from
  such a point, so the rounding of the floating-point division cannot change the result:
  the exact quotient is rounded here.
\<close>

definition timeToRead_of_count :: "nat \<Rightarrow> int" where
  "timeToRead_of_count wordCount =
     (let avgWPM = 265; timeToRead = round (real wordCount / avgWPM)
      in if timeToRead = 0 then 1 else timeToRead)"

text \<open>
  The resolver of the field \<open>timeToRead\<close>, after \<open>getHTML\<close> has yielded a record whose
  \<open>html\<close> is the last argument. The two library functions are parameters:
  \<open>sanitizeHTML\<close> (sanitize-html) and \<open>words\<close> (lodash's \<open>_.words\<close>).
\<close>

definition timeToRead_resolve ::
  "(string \<Rightarrow> (string \<times> string list) list \<Rightarrow> string) \<Rightarrow> (string \<Rightarrow> string list) \<Rightarrow> string \<Rightarrow> int" where
  "timeToRead_resolve sanitizeHTML words awaited_html =
     (let pureText = sanitizeHTML awaited_html timeToRead_options;
          wordCount = length (words pureText)
      in timeToRead_of_count wordCount)"

text \<open>
  sanitize-html merges the options it is given over its defaults; the option that names the
  tags to keep is \<open>allowedTags\<close>, and without it the default list of tags is kept. The list
  is that of the 1.x releases of the library; later releases only add to it.
\<close>

definition sanitize_default_allowedTags :: "string list" where
  "sanitize_default_allowedTags = [''h3'', ''h4'', ''h5'', ''h6'', ''blockquote'', ''p'', ''a'',
     ''ul'', ''ol'', ''nl'', ''li'', ''b'', ''i'', ''strong'', ''em'', ''strike'', ''code'', ''hr'',
     ''br'', ''div'', ''table'', ''thead'', ''caption'', ''tbody'', ''tr'', ''th'', ''td'', ''pre'']"

definition allowedTags_of :: "(string \<times> string list) list \<Rightarrow> string list" where
  "allowedTags_of options =
     (case map_of options ''allowedTags'' of Some tags \<Rightarrow> tags | None \<Rightarrow> sanitize_default_allowedTags)"

text \<open>
  \<open>sanitizeHTML(dirty, options)\<close>: the tag filter of the library, a parameter, runs with the
  list of tags the options select.
\<close>

definition sanitizeHTML ::
  "(string list \<Rightarrow> string \<Rightarrow> string) \<Rightarrow> string \<Rightarrow> (string \<times> string list) list \<Rightarrow> string" where
  "sanitizeHTML filter_tags dirty options = filter_tags (allowedTags_of options) dirty"

text \<open>
  A plain tag filter and a plain word splitter, for documents whose tags carry no
  attributes and whose text is lower-case ASCII words: a tag is kept when its name is in the
  list and dropped otherwise (its content stays), and a word is a maximal run of letters
  and digits. On such documents sanitize-html and \<open>_.words\<close> do the same.
\<close>

definition is_alnum :: "char \<Rightarrow> bool" where
  "is_alnum c = (let n = (of_char c :: nat) in
     (65 \<le> n \<and> n \<le> 90) \<or> (97 \<le> n \<and> n \<le> 122) \<or> (48 \<le> n \<and> n \<le> 57))"

definition tag_name :: "string \<Rightarrow> string" where
  "tag_name tag = takeWhile is_alnum (case tag of c # r \<Rightarrow> if c = CHR ''/'' then r else tag | [] \<Rightarrow> [])"

fun plain_filter_tags :: "string option \<Rightarrow> string list \<Rightarrow> string \<Rightarrow> string" where
  "plain_filter_tags None allowed [] = []"
| "plain_filter_tags (Some tag) allowed [] = []"
| "plain_filter_tags None allowed (c # cs) =
     (if c = CHR ''<'' then plain_filter_tags (Some []) allowed cs
      else c # plain_filter_tags None allowed cs)"
| "plain_filter_tags (Some tag) allowed (c # cs) =
     (if c = CHR ''>''
      then (if tag_name tag \<in> set allowed then ''<'' @ tag @ ''>'' else []) @ plain_filter_tags None allowed cs
      else plain_filter_tags (Some (tag @ [c])) allowed cs)"

fun plain_words :: "string \<Rightarrow> string \<Rightarrow> string list" where
  "plain_words cur [] = (if cur = [] then [] else [cur])"
| "plain_words cur (c # cs) =
     (if is_alnum c then plain_words (cur @ [c]) cs
      else (if cur = [] then [] else [cur]) @ plain_words [] cs)"

text \<open>A rendered paragraph of one word, and the same line without its markup.\<close>

definition one_word_paragraph :: string where
  "one_word_paragraph = ''<p>a</p>'' @ [CHR 0x0A]"

definition one_word_line :: string where
  "one_word_line = ''a'' @ [CHR 0x0A]"

section \<open>Notions used in the proofs\<close>

text \<open>
  From one state to a later one the list of runs only grows, a run keeps the identifier of
  its record, and no new run is for the given identifier.
\<close>

definition runs_extend :: "string \<Rightarrow> state \<Rightarrow> state \<Rightarrow> bool" where
  "runs_extend ident s s' \<longleftrightarrow>
     length (runs s) \<le> length (runs s')
     \<and> (\<forall>j < length (runs s). node_id (run_node (runs s' ! j)) = node_id (run_node (runs s ! j)))
     \<and> (\<forall>j. length (runs s) \<le> j \<and> j < length (runs s') \<longrightarrow>
           node_id (run_node (runs s' ! j)) \<noteq> ident)"

text \<open>Examples: a record, two plugins, and stand-ins for the parser and the renderer.\<close>

definition example_node :: mdnode where
  "example_node = \<lparr>node_id = ''a.md'', node_type = ''MarkdownRemark'', src = ''# T'', ast = None,
     html = None, headings = None\<rparr>"

definition example_parse :: "string \<Rightarrow> unist" where
  "example_parse source = Unist ''root'' None None [Unist ''text'' (Some source) None []]"

definition example_render :: "unist \<Rightarrow> string" where
  "example_render tree = join [] (textNodes tree)"

definition mutating_plugin :: plugin where
  "mutating_plugin = \<lparr>mutateSource = Some \<lparr>throws = None, effect = (\<lambda>source. source @ ''!''),
     settles = Fulfil\<rparr>, annotate = None\<rparr>"

definition rejecting_plugin :: plugin where
  "rejecting_plugin = \<lparr>mutateSource = Some \<lparr>throws = None, effect = id,
     settles = Reject ''boom''\<rparr>, annotate = None\<rparr>"

text \<open>
  A run whose inner promise chain was rejected with the given reason, with the given state
  of its cached promise and the given \<open>ast\<close> field of its record.
\<close>

definition stuck :: "nat \<Rightarrow> string \<Rightarrow> promise_state \<Rightarrow> unist option \<Rightarrow> state \<Rightarrow> bool" where
  "stuck h e p tree s \<longleftrightarrow>
     h < length (runs s) \<and> run_failed (runs s ! h) = Some e
     \<and> run_promise (runs s ! h) = p \<and> ast (run_node (runs s ! h)) = tree"

text \<open>
  A cached promise is fulfilled only when its run has completed, and rejected only when a
  failure of its run is recorded.
\<close>

definition promise_ok :: "run \<Rightarrow> bool" where
  "promise_ok r \<longleftrightarrow>
     (run_promise r = Fulfilled \<longrightarrow> run_phase r = Complete)
     \<and> (run_failed r = None \<longrightarrow> run_promise r = Pending \<or> run_promise r = Fulfilled)"

definition promises_ok :: "state \<Rightarrow> bool" where
  "promises_ok s \<longleftrightarrow> (\<forall>h < length (runs s). promise_ok (runs s ! h))"

text \<open>The reason with which the promise of a plugin's call in the given phase rejects, if it does.\<close>

definition rejection_of :: "phase \<Rightarrow> plugin \<Rightarrow> string option" where
  "rejection_of ph p =
     (case ph of
        Mutating \<Rightarrow>
          (case mutateSource p of
             Some c \<Rightarrow> (case settles c of Reject e \<Rightarrow> Some e | Fulfil \<Rightarrow> None)
           | None \<Rightarrow> None)
      | Annotating _ \<Rightarrow>
          (case annotate p of
             Some c \<Rightarrow> (case settles c of Reject e \<Rightarrow> Some e | Fulfil \<Rightarrow> None)
           | None \<Rightarrow> None)
      | Complete \<Rightarrow> None)"

text \<open>The run an action of the log belongs to, and the parses of a run among the actions.\<close>

fun action_run :: "action \<Rightarrow> nat" where
  "action_run (Called_mutateSource h i) = h"
| "action_run (Settled_mutateSource h i outcome) = h"
| "action_run (Parsed h source) = h"
| "action_run (Called_annotate h i) = h"
| "action_run (Settled_annotate h i outcome) = h"
| "action_run (Resolved h) = h"

fun is_parsed :: "nat \<Rightarrow> action \<Rightarrow> bool" where
  "is_parsed h (Parsed h' source) = (h' = h)"
| "is_parsed h _ = False"

definition parse_count :: "nat \<Rightarrow> action list \<Rightarrow> nat" where
  "parse_count h actions = length (filter (is_parsed h) actions)"

text \<open>
  Every plugin of the run that has \<open>mutateSource\<close> has a fulfilled settlement among the
  actions.
\<close>

definition mutations_fulfilled :: "nat \<Rightarrow> plugin list \<Rightarrow> action list \<Rightarrow> bool" where
  "mutations_fulfilled h plugins actions \<longleftrightarrow>
     (\<forall>i < length plugins. mutateSource (plugins ! i) \<noteq> None
        \<longrightarrow> Settled_mutateSource h i Fulfil \<in> set actions)"

text \<open>
  The relation between a run and the log that every step keeps. In the first phase nothing
  is parsed, and while no promise was rejected every settled slot of a plugin with
  \<open>mutateSource\<close> has its fulfilled settlement in the log. After the first phase the log
  holds exactly one parse of the run, of the record's source, and before it the fulfilled
  settlements of all \<open>mutateSource\<close> calls.
\<close>

definition run_ok :: "nat \<Rightarrow> run \<Rightarrow> action list \<Rightarrow> bool" where
  "run_ok h r actions \<longleftrightarrow>
     (run_phase r = Mutating \<longrightarrow>
        parse_count h actions = 0
        \<and> (run_failed r = None \<longrightarrow>
             length (run_slots r) = length (run_plugins r)
             \<and> (\<forall>i < length (run_plugins r).
                   run_slots r ! i = Settled \<longrightarrow> mutateSource (run_plugins r ! i) \<noteq> None
                   \<longrightarrow> Settled_mutateSource h i Fulfil \<in> set actions)))
     \<and> (run_phase r \<noteq> Mutating \<longrightarrow>
          (\<exists>newer older. actions = newer @ Parsed h (src (run_node r)) # older
             \<and> parse_count h newer = 0 \<and> parse_count h older = 0
             \<and> mutations_fulfilled h (run_plugins r) older))"

text \<open>
  The state as a whole: every action of the log belongs to a run that exists, and every run
  stands in that relation to the log.
\<close>

definition log_ok :: "state \<Rightarrow> bool" where
  "log_ok s \<longleftrightarrow>
     (\<forall>a \<in> set (log s). action_run a < length (runs s))
     \<and> (\<forall>h < length (runs s). run_ok h (runs s ! h) (log s))"

text \<open>A run that failed in its first phase.\<close>

definition failed_mutating :: "nat \<Rightarrow> state \<Rightarrow> bool" where
  "failed_mutating h s \<longleftrightarrow>
     h < length (runs s) \<and> run_phase (runs s ! h) = Mutating \<and> run_failed (runs s ! h) \<noteq> None"

section \<open>Headings as the specification words them\<close>

text \<open>
  Written from the words of the specification, not from the code, to compare the code with:
  the first text node inside a node, searched depth-first from left to right, and the
  headings of a tree, each with its depth and the value of its first text node, a node
  before its children and the children from left to right.
\<close>

fun first_text_node :: "unist \<Rightarrow> unist option"
  and first_text_node_among :: "unist list \<Rightarrow> unist option" where
  "first_text_node (Unist ty v d cs) =
     (if ty = ''text'' then Some (Unist ty v d cs) else first_text_node_among cs)"
| "first_text_node_among [] = None"
| "first_text_node_among (c # cs) =
     (case first_text_node c of Some n \<Rightarrow> Some n | None \<Rightarrow> first_text_node_among cs)"

definition heading_entry :: "unist \<Rightarrow> heading" where
  "heading_entry h =
     \<lparr>heading_value = (case first_text_node h of None \<Rightarrow> None | Some n \<Rightarrow> uvalue n),
      heading_depth = udepth h\<rparr>"

fun document_headings :: "unist \<Rightarrow> heading list"
  and document_headings_among :: "unist list \<Rightarrow> heading list" where
  "document_headings (Unist ty v d cs) =
     (if ty = ''heading'' then [heading_entry (Unist ty v d cs)] else [])
       @ document_headings_among cs"
| "document_headings_among [] = []"
| "document_headings_among (c # cs) = document_headings c @ document_headings_among cs"

text \<open>The document of the specification's example: headings of depths 1, 2, 2 and 3.\<close>

definition example_document :: unist where
  "example_document = Unist ''root'' None None
     [Unist ''heading'' None (Some 1) [Unist ''text'' (Some ''A'') None []],
      Unist ''heading'' None (Some 2) [Unist ''text'' (Some ''B'') None []],
      Unist ''paragraph'' None None [Unist ''text'' (Some ''body'') None []],
      Unist ''heading'' None (Some 2)
        [Unist ''emphasis'' None None [Unist ''text'' (Some ''C'') None []],
         Unist ''text'' (Some '' tail'') None []],
      Unist ''heading'' None (Some 3) [Unist ''text'' (Some ''D'') None []]]"

section \<open>Invalidation theorems\<close>

text \<open>
  Claim C4. For a record of type MarkdownRemark, onNodeCreate removes the AST cache entry
  of the record's identifier, is idempotent, changes nothing when no entry exists, and
  leaves every invocation's HTML cache (and the HTML promises) as they were.
\<close>

theorem onNodeCreate_deletes_ast_entry_only:
  assumes "node_type node = ''MarkdownRemark''"
  shows "astPromiseCache (onNodeCreate node s) (node_id node) = None
    \<and> onNodeCreate node (onNodeCreate node s) = onNodeCreate node s
    \<and> (astPromiseCache s (node_id node) = None \<longrightarrow> onNodeCreate node s = s)
    \<and> invocations (onNodeCreate node s) = invocations s
    \<and> html_promises (onNodeCreate node s) = html_promises s"
  using assms by (simp add: onNodeCreate_def fun_upd_idem)

theorem onNodeCreate_deletes_ast_entry_only_witness:
  "node_type \<lparr>node_id = ''a.md'', node_type = ''MarkdownRemark'', src = ''# T'', ast = None,
       html = None, headings = None\<rparr> = ''MarkdownRemark''
   \<and> astPromiseCache (onNodeCreate \<lparr>node_id = ''a.md'', node_type = ''MarkdownRemark'',
       src = ''# T'', ast = None, html = None, headings = None\<rparr>
       (initial_state\<lparr>astPromiseCache := [''a.md'' \<mapsto> 0]\<rparr>)) ''a.md'' = None"
  using onNodeCreate_deletes_ast_entry_only
    [of "\<lparr>node_id = ''a.md'', node_type = ''MarkdownRemark'', src = ''# T'', ast = None,
       html = None, headings = None\<rparr>" "initial_state\<lparr>astPromiseCache := [''a.md'' \<mapsto> 0]\<rparr>"]
  by simp

text \<open>
  Claim C10. For a record of any other type, onNodeCreate returns the state unchanged, so
  no AST cache entry is deleted, the record's own included.
\<close>

theorem onNodeCreate_other_type_unchanged:
  assumes "node_type node \<noteq> ''MarkdownRemark''"
  shows "onNodeCreate node s = s
    \<and> (\<forall>k. astPromiseCache (onNodeCreate node s) k = astPromiseCache s k)"
  using assms by (simp add: onNodeCreate_def)

theorem onNodeCreate_other_type_unchanged_witness:
  "node_type \<lparr>node_id = ''a.md'', node_type = ''File'', src = ''# T'', ast = None,
       html = None, headings = None\<rparr> \<noteq> ''MarkdownRemark''
   \<and> astPromiseCache (onNodeCreate \<lparr>node_id = ''a.md'', node_type = ''File'',
       src = ''# T'', ast = None, html = None, headings = None\<rparr>
       (initial_state\<lparr>astPromiseCache := [''a.md'' \<mapsto> 0]\<rparr>)) ''a.md'' = Some 0"
  using onNodeCreate_other_type_unchanged
    [of "\<lparr>node_id = ''a.md'', node_type = ''File'', src = ''# T'', ast = None,
       html = None, headings = None\<rparr>" "initial_state\<lparr>astPromiseCache := [''a.md'' \<mapsto> 0]\<rparr>"]
  by (simp add: initial_state_def)

section \<open>Reading time theorems\<close>

lemma timeToRead_of_count_ge_1: "1 \<le> timeToRead_of_count n"
proof -
  have "0 \<le> round (real n / 265)" by (simp add: round_def)
  then show ?thesis by (auto simp: timeToRead_of_count_def Let_def)
qed

lemma timeToRead_of_count_eq: "timeToRead_of_count n = max 1 ((2 * int n + 265) div 530)"
proof -
  have "real n / 265 + 1 / 2 = real_of_int (2 * int n + 265) / real_of_int 530" by simp
  then have "round (real n / 265) = (2 * int n + 265) div 530"
    unfolding round_def by (simp only: floor_divide_of_int_eq)
  moreover have "0 \<le> (2 * int n + 265) div 530" by simp
  ultimately show ?thesis by (auto simp: timeToRead_of_count_def Let_def)
qed

lemma filter_paragraph:
  "plain_filter_tags None allowed (one_word_paragraph @ rest) =
     (if ''p'' \<in> set allowed then one_word_paragraph else one_word_line)
       @ plain_filter_tags None allowed rest"
  by (simp add: one_word_paragraph_def one_word_line_def tag_name_def is_alnum_def)

lemma filter_paragraphs:
  "plain_filter_tags None allowed (concat (replicate k one_word_paragraph)) =
     concat (replicate k (if ''p'' \<in> set allowed then one_word_paragraph else one_word_line))"
  by (induction k) (simp_all add: filter_paragraph del: append_assoc)

lemma words_paragraph:
  "plain_words [] (one_word_paragraph @ rest) = [''p'', ''a'', ''p''] @ plain_words [] rest"
  by (simp add: one_word_paragraph_def is_alnum_def)

lemma words_paragraphs:
  "length (plain_words [] (concat (replicate k one_word_paragraph))) = 3 * k"
  by (induction k) (simp_all add: words_paragraph)

lemma words_stripped_paragraph:
  "plain_words [] (one_word_line @ rest) = [''a''] @ plain_words [] rest"
  by (simp add: one_word_line_def is_alnum_def)

lemma words_stripped_paragraphs:
  "length (plain_words [] (concat (replicate k one_word_line))) = k"
  by (induction k) (simp_all add: words_stripped_paragraph)

text \<open>
  Claim C5. The resolver rounds the word count over 265 to the nearest integer and returns
  at least 1 (lemmas \<open>timeToRead_of_count_eq\<close> and \<open>timeToRead_of_count_ge_1\<close>), but it does
  not strip all markup: the option key it passes, \<open>allowTags\<close>, is not the key \<open>allowedTags\<close>
  the sanitizer reads, so the sanitizer keeps its default tags, \<open>p\<close> among them, and their
  names are counted as words. On 133 one-word paragraphs, one to a line, the resolver
  returns 2, where the text without markup gives 1.
\<close>

theorem timeToRead_keeps_default_tags:
  "timeToRead_resolve (sanitizeHTML filter_tags) words rendered
     = timeToRead_of_count (length (words (filter_tags sanitize_default_allowedTags rendered)))
   \<and> ''p'' \<in> set sanitize_default_allowedTags
   \<and> timeToRead_resolve (sanitizeHTML (plain_filter_tags None)) (plain_words [])
        (concat (replicate 133 one_word_paragraph)) = 2
   \<and> timeToRead_of_count (length (plain_words []
        (plain_filter_tags None [] (concat (replicate 133 one_word_paragraph))))) = 1"
proof (intro conjI)
  show "timeToRead_resolve (sanitizeHTML filter_tags) words rendered
     = timeToRead_of_count (length (words (filter_tags sanitize_default_allowedTags rendered)))"
    by (simp add: timeToRead_resolve_def sanitizeHTML_def allowedTags_of_def timeToRead_options_def)
  show p: "''p'' \<in> set sanitize_default_allowedTags"
    by (simp add: sanitize_default_allowedTags_def)
  have "timeToRead_resolve (sanitizeHTML (plain_filter_tags None)) (plain_words [])
        (concat (replicate 133 one_word_paragraph)) = timeToRead_of_count (3 * 133)"
    using p
    by (simp add: timeToRead_resolve_def sanitizeHTML_def allowedTags_of_def timeToRead_options_def
        filter_paragraphs words_paragraphs)
  then show "timeToRead_resolve (sanitizeHTML (plain_filter_tags None)) (plain_words [])
        (concat (replicate 133 one_word_paragraph)) = 2"
    by (simp add: timeToRead_of_count_eq)
  show "timeToRead_of_count (length (plain_words []
        (plain_filter_tags None [] (concat (replicate 133 one_word_paragraph))))) = 1"
    by (simp add: filter_paragraphs words_stripped_paragraphs timeToRead_of_count_eq)
qed

section \<open>Headings theorems\<close>

lemma first_text_node_preorder:
  "first_text_node t =
     (case filter (\<lambda>n. utype n = ''text'') (preorder t) of [] \<Rightarrow> None | x # _ \<Rightarrow> Some x)"
  "first_text_node_among cs =
     (case filter (\<lambda>n. utype n = ''text'') (concat (map preorder cs)) of
        [] \<Rightarrow> None | x # _ \<Rightarrow> Some x)"
  by (induction t and cs rule: first_text_node_first_text_node_among.induct)
     (auto split: list.splits option.splits)

lemma first_select_text:
  "first (map uvalue (select h ''text'')) =
     (case first_text_node h of None \<Rightarrow> None | Some n \<Rightarrow> uvalue n)"
  by (simp add: first_def select_def first_text_node_preorder(1) split: list.splits)

lemma document_headings_preorder:
  "document_headings t = map heading_entry (filter (\<lambda>n. utype n = ''heading'') (preorder t))"
  "document_headings_among cs =
     map heading_entry (filter (\<lambda>n. utype n = ''heading'') (concat (map preorder cs)))"
  by (induction t and cs rule: document_headings_document_headings_among.induct) simp_all

lemma extract_headings_document: "extract_headings tree = document_headings tree"
  by (simp add: extract_headings_def document_headings_preorder(1) select_def
      heading_entry_def first_select_text [unfolded select_def])

text \<open>
  Claim C7, as stated, fails: \<open>getHeadings\<close> returns a \<open>headings\<close> field that the record
  already has, whatever the tree holds. For a record with the field set to the empty list
  and a document with four headings the resolver returns no heading.
\<close>

theorem headings_resolve_returns_stored_field:
  "headings_resolve (example_node\<lparr>headings := Some []\<rparr>) example_document None = Some []
   \<and> length (document_headings example_document) = 4"
  by (simp add: headings_resolve_def getHeadings_def example_node_def example_document_def
      heading_entry_def)

text \<open>
  Claim C7, amended. For a record whose \<open>headings\<close> field is not set, the resolver returns
  one entry for each heading node of the tree in document order, with the heading's depth
  and the value of the first text node inside it, and \<open>getHeadings\<close> stores that list in the
  field; with a depth argument it returns exactly the entries of that depth, in the same
  order. For a record whose \<open>headings\<close> field is set, the resolver returns the stored list,
  filtered by the depth argument in the same way, and does not look at the tree.
\<close>

theorem headings_resolve_fresh_or_stored:
  "(headings markdownNode = None \<longrightarrow>
      headings_resolve markdownNode tree None = Some (document_headings tree)
    \<and> headings_resolve markdownNode tree (Some d)
        = Some (filter (\<lambda>h. heading_depth h = Some d) (document_headings tree))
    \<and> getHeadings markdownNode tree = markdownNode\<lparr>headings := Some (document_headings tree)\<rparr>)
   \<and> (headings markdownNode = Some stored \<longrightarrow>
      headings_resolve markdownNode tree None = Some stored
    \<and> headings_resolve markdownNode tree (Some d)
        = Some (filter (\<lambda>h. heading_depth h = Some d) stored)
    \<and> getHeadings markdownNode tree = markdownNode)"
  by (simp add: headings_resolve_def getHeadings_def extract_headings_document)

theorem headings_resolve_fresh_or_stored_witness:
  "headings example_node = None
   \<and> headings_resolve example_node example_document (Some 2)
       = Some [\<lparr>heading_value = Some ''B'', heading_depth = Some 2\<rparr>,
               \<lparr>heading_value = Some ''C'', heading_depth = Some 2\<rparr>]
   \<and> headings (example_node\<lparr>headings := Some []\<rparr>) = Some []
   \<and> headings_resolve (example_node\<lparr>headings := Some []\<rparr>) example_document (Some 2) = Some []"
proof -
  have h: "headings example_node = None" "headings (example_node\<lparr>headings := Some []\<rparr>) = Some []"
    by (simp_all add: example_node_def)
  have e: "filter (\<lambda>h. heading_depth h = Some 2) (document_headings example_document)
      = [\<lparr>heading_value = Some ''B'', heading_depth = Some 2\<rparr>,
         \<lparr>heading_value = Some ''C'', heading_depth = Some 2\<rparr>]"
    by (simp add: example_document_def heading_entry_def)
  show ?thesis
    using h e
      headings_resolve_fresh_or_stored [where markdownNode = example_node
        and tree = example_document and d = 2]
      headings_resolve_fresh_or_stored [where markdownNode = "example_node\<lparr>headings := Some []\<rparr>"
        and stored = "[]" and tree = example_document and d = 2]
    by simp
qed

section \<open>Excerpt theorems\<close>

lemma visit_foldl:
  "visit_one ty visitor t acc =
     foldl (\<lambda>a n. visitor n a) acc (filter (\<lambda>n. utype n = ty) (preorder t))"
  "visit_all ty visitor cs acc =
     foldl (\<lambda>a n. visitor n a) acc (filter (\<lambda>n. utype n = ty) (concat (map preorder cs)))"
  by (induction ty visitor t acc and ty visitor cs acc rule: visit_one_visit_all.induct) simp_all

lemma foldl_snoc_map: "foldl (\<lambda>a n. a @ [f n]) acc xs = acc @ map f xs"
  by (induction xs arbitrary: acc) simp_all

lemma textNodes_preorder:
  "textNodes tree = map uvalue (filter (\<lambda>n. utype n = ''text'') (preorder tree))"
  by (simp add: textNodes_def visit_foldl foldl_snoc_map)

lemma length_replace_tail: "length (replace_tail t) = length t"
  by (induction t) simp_all

lemma drop_replace_tail: "drop k (replace_tail t) = replace_tail (drop k t)"
  by (induction t arbitrary: k) (simp_all add: drop_Cons split: nat.splits)

lemma space_not_cased: "is_space_char c \<Longrightarrow> \<not> is_cased c"
  by (auto simp: is_space_char_def is_cased_def Let_def)

lemma space_not_word: "is_space_char c \<Longrightarrow> \<not> is_word_char c"
  by (auto simp: is_space_char_def is_word_char_def Let_def)

lemma tmpl_space: "is_space_char (tmpl c) \<longleftrightarrow> \<not> is_cased c"
  by (simp add: tmpl_def is_space_char_def)

lemma tmpl_word: "is_cased c \<Longrightarrow> is_word_char (tmpl c)"
  by (simp add: tmpl_def is_word_char_def)

lemma cased_not_line_terminator: "is_cased c \<Longrightarrow> \<not> is_line_terminator c"
  by (auto simp: is_cased_def is_line_terminator_def Let_def)

lemma replace_tail_space:
  "k < length t \<Longrightarrow> is_space_char (replace_tail t ! k) \<Longrightarrow> \<not> is_cased (t ! k)"
proof (induction t arbitrary: k)
  case Nil
  then show ?case by simp
next
  case (Cons c rest)
  show ?case
  proof (cases k)
    case 0
    with Cons.prems show ?thesis
      by (auto simp: tmpl_space space_not_cased split: if_splits)
  next
    case (Suc j)
    with Cons show ?thesis by simp
  qed
qed

lemma nonword_then_word_single: "nonword_then_word [c]"
  by (simp add: nonword_then_word_def)

lemma replace_tail_two_cased:
  assumes "is_cased a" "is_cased b"
  shows "replace_tail [a, b] = [tmpl a, tmpl b]"
  using assms
  by (simp add: nonword_then_word_def cased_not_line_terminator)

lemma ends_in_two_word_chars_cased:
  assumes "2 \<le> length t" "is_cased (t ! (length t - 2))" "is_cased (t ! (length t - 1))"
  shows "ends_in_two_word_chars (replace_tail t)"
proof -
  define n where "n = length t - 2"
  have n: "length t = Suc (Suc n)" using assms(1) by (simp add: n_def)
  have "drop n t = t ! n # drop (Suc n) t"
    by (rule Cons_nth_drop_Suc [symmetric]) (simp add: n)
  moreover have "drop (Suc n) t = t ! Suc n # drop (Suc (Suc n)) t"
    by (rule Cons_nth_drop_Suc [symmetric]) (simp add: n)
  ultimately have d: "drop n t = [t ! n, t ! Suc n]" by (simp add: n)
  have c: "is_cased (t ! n)" "is_cased (t ! Suc n)" using assms(2,3) by (simp_all add: n)
  have "slice_from (replace_tail t) (int (length (replace_tail t)) - 2)
      = drop n (replace_tail t)"
    by (simp add: slice_from_def length_replace_tail n)
  also have "\<dots> = replace_tail [t ! n, t ! Suc n]"
    by (simp only: drop_replace_tail d)
  also have "\<dots> = [tmpl (t ! n), tmpl (t ! Suc n)]"
    by (rule replace_tail_two_cased [OF c])
  finally show ?thesis
    by (simp add: ends_in_two_word_chars_def tmpl_word c)
qed

lemma rev_dropWhile_rev_split:
  "\<exists>suf. t = rev (dropWhile P (rev t)) @ suf \<and> (\<forall>x\<in>set suf. P x)
     \<and> (rev (dropWhile P (rev t)) \<noteq> [] \<longrightarrow> \<not> P (last (rev (dropWhile P (rev t)))))"
proof (intro exI conjI)
  have "t = rev (takeWhile P (rev t) @ dropWhile P (rev t))"
    by (simp only: takeWhile_dropWhile_id rev_rev_ident)
  then show "t = rev (dropWhile P (rev t)) @ rev (takeWhile P (rev t))"
    by (simp only: rev_append)
  show "\<forall>x\<in>set (rev (takeWhile P (rev t))). P x"
    by (auto dest: set_takeWhileD)
  show "rev (dropWhile P (rev t)) \<noteq> [] \<longrightarrow> \<not> P (last (rev (dropWhile P (rev t))))"
    by (simp add: last_rev hd_dropWhile)
qed

lemma nth_append_hd: "suf \<noteq> [] \<Longrightarrow> (pre @ suf @ post) ! length pre = hd suf"
  by (cases suf) simp_all

lemma rtrim_cut:
  "length (rtrim t) \<le> length t"
  "length (rtrim t) < length t \<Longrightarrow> is_space_char (t ! length (rtrim t))"
proof -
  obtain suf where s: "t = rtrim t @ suf" "\<forall>x\<in>set suf. is_space_char x"
    using rev_dropWhile_rev_split [of t is_space_char] by (auto simp: rtrim_def)
  have len: "length t = length (rtrim t) + length suf"
    using arg_cong [OF s(1), of length] by simp
  then show "length (rtrim t) \<le> length t" by simp
  assume "length (rtrim t) < length t"
  with len have ne: "suf \<noteq> []" by auto
  have "t = rtrim t @ suf @ []" using s(1) by simp
  then have "t ! length (rtrim t) = (rtrim t @ suf @ []) ! length (rtrim t)" by simp
  also have "\<dots> = hd suf" using ne by (rule nth_append_hd)
  finally show "is_space_char (t ! length (rtrim t))" using s(2) ne by simp
qed

lemma drop_last_token_cut:
  assumes "t \<noteq> []" "\<not> is_space_char (last t)"
  shows "length (drop_last_token t) < length t"
    and "0 < length (drop_last_token t) \<Longrightarrow> is_space_char (t ! length (drop_last_token t))"
proof -
  define r1 where "r1 = rev (dropWhile (\<lambda>c. \<not> is_space_char c) (rev t))"
  define r2 where "r2 = rev (dropWhile is_space_char (rev r1))"
  have res: "drop_last_token t = r2"
    using assms by (simp add: drop_last_token_def r1_def r2_def)
  obtain suf1 where s1: "t = r1 @ suf1" "\<forall>x\<in>set suf1. \<not> is_space_char x"
    "r1 \<noteq> [] \<longrightarrow> is_space_char (last r1)"
    using rev_dropWhile_rev_split [of t "\<lambda>c. \<not> is_space_char c"] by (auto simp: r1_def)
  obtain suf2 where s2: "r1 = r2 @ suf2" "\<forall>x\<in>set suf2. is_space_char x"
    "r2 \<noteq> [] \<longrightarrow> \<not> is_space_char (last r2)"
    using rev_dropWhile_rev_split [of r1 is_space_char] by (auto simp: r2_def)
  have ne1: "suf1 \<noteq> []"
  proof
    assume "suf1 = []"
    with s1(1) have "r1 = t" by simp
    with s1(3) assms show False by simp
  qed
  have len: "length t = length r2 + length suf2 + length suf1"
    using arg_cong [OF s1(1), of length] arg_cong [OF s2(1), of length] by simp
  with ne1 show "length (drop_last_token t) < length t" by (simp add: res)
  assume pos: "0 < length (drop_last_token t)"
  then have ne: "r2 \<noteq> []" by (simp add: res)
  have ne2: "suf2 \<noteq> []"
  proof
    assume "suf2 = []"
    with s2(1) have "r1 = r2" by simp
    with s1(3) s2(3) ne show False by simp
  qed
  have "t = r2 @ suf2 @ suf1" using s1(1) s2(1) by simp
  then have "t ! length r2 = (r2 @ suf2 @ suf1) ! length r2" by simp
  also have "\<dots> = hd suf2" using ne2 by (rule nth_append_hd)
  finally show "is_space_char (t ! length (drop_last_token t))" using s2(2) ne2 by (simp add: res)
qed


lemma ends_in_two_word_chars_last:
  assumes "ends_in_two_word_chars m"
  shows "m \<noteq> []" and "\<not> is_space_char (last m)"
proof -
  from assms obtain a b where ab: "slice_from m (int (length m) - 2) = [a, b]" "is_word_char b"
    by (auto simp: ends_in_two_word_chars_def split: list.splits)
  show ne: "m \<noteq> []" using ab(1) by (auto simp: slice_from_def)
  have 2: "2 \<le> length m"
  proof (rule ccontr)
    assume "\<not> 2 \<le> length m"
    then have "length (slice_from m (int (length m) - 2)) \<le> 1"
      by (simp add: slice_from_def)
    with ab(1) show False by simp
  qed
  then have d: "drop (length m - 2) m = [a, b]"
    using ab(1) by (simp add: slice_from_def nat_diff_distrib')
  have "last (drop (length m - 2) m) = last m"
    by (rule last_drop) (use 2 in simp)
  with d have "last m = b" by simp
  with ab(2) show "\<not> is_space_char (last m)" using space_not_word by blast
qed

lemma prune_template_cut:
  assumes "n < length str"
  shows "length (prune_template str (int n)) \<le> n"
    and "0 < length (prune_template str (int n)) \<Longrightarrow>
         \<not> (is_cased (str ! (length (prune_template str (int n)) - 1))
            \<and> is_cased (str ! length (prune_template str (int n))))"
proof -
  define t where "t = take (Suc n) str"
  define m where "m = replace_tail t"
  define k where "k = length (prune_template str (int n))"
  have lt: "length t = Suc n" using assms by (simp add: t_def)
  have lm: "length m = Suc n" by (simp add: m_def length_replace_tail lt)
  have sl: "slice_to str (int n + 1) = t"
    by (simp add: slice_to_def t_def nat_add_distrib)
  have tn: "\<And>i. i \<le> n \<Longrightarrow> t ! i = str ! i" by (simp add: t_def)
  have sp: "\<And>i. i \<le> n \<Longrightarrow> is_space_char (m ! i) \<Longrightarrow> \<not> is_cased (str ! i)"
    using replace_tail_space [of _ t] lt tn by (simp add: m_def)
  have goal: "k \<le> n \<and> (0 < k \<longrightarrow> \<not> (is_cased (str ! (k - 1)) \<and> is_cased (str ! k)))"
  proof (cases "ends_in_two_word_chars m")
    case True
    then have k: "k = length (drop_last_token m)"
      by (simp add: k_def prune_template_def sl m_def)
    have c: "m \<noteq> []" "\<not> is_space_char (last m)"
      using ends_in_two_word_chars_last [OF True] by simp_all
    have "k < length m" using drop_last_token_cut(1) [OF c] by (simp add: k)
    then have kn: "k \<le> n" by (simp add: lm)
    moreover have "0 < k \<longrightarrow> \<not> is_cased (str ! k)"
      using drop_last_token_cut(2) [OF c] sp [OF kn] by (simp add: k)
    ultimately show ?thesis by simp
  next
    case False
    have tk: "slice_to m (int (length m) - 1) = take n m"
      by (simp add: slice_to_def lm)
    have k: "k = length (rtrim (take n m))"
      using False by (simp add: k_def prune_template_def sl m_def [symmetric] tk)
    have ltk: "length (take n m) = n" by (simp add: lm)
    have kn: "k \<le> n" using rtrim_cut(1) [of "take n m"] by (simp add: k ltk)
    have "\<not> (is_cased (str ! (k - 1)) \<and> is_cased (str ! k))" if pos: "0 < k"
    proof (cases "k < n")
      case True
      then have "length (rtrim (take n m)) < length (take n m)"
        by (simp only: k ltk)
      then have "is_space_char (take n m ! k)"
        unfolding k by (rule rtrim_cut(2))
      then have "is_space_char (m ! k)" using True by simp
      then show ?thesis using sp [OF kn] by simp
    next
      case False
      with kn have e: "k = n" by simp
      have "\<not> (is_cased (t ! (length t - 2)) \<and> is_cased (t ! (length t - 1)))"
        using ends_in_two_word_chars_cased [of t] \<open>\<not> ends_in_two_word_chars m\<close> pos e lt
        by (auto simp: m_def)
      moreover have "length t - 2 = k - 1" "length t - 1 = k" using lt e by simp_all
      ultimately show ?thesis using tn [of k] tn [of "k - 1"] e by simp
    qed
    with kn show ?thesis by simp
  qed
  from goal show "length (prune_template str (int n)) \<le> n" by (simp add: k_def)
  from goal show "0 < length (prune_template str (int n)) \<Longrightarrow>
         \<not> (is_cased (str ! (length (prune_template str (int n)) - 1))
            \<and> is_cased (str ! length (prune_template str (int n))))"
    by (simp add: k_def)
qed

lemma to_int32_id: "0 \<le> p \<Longrightarrow> p < 2 ^ 31 \<Longrightarrow> to_int32 p = p"
  by (simp add: to_int32_def sint_sbintrunc' signed_take_bit_int_eq_self)

lemma prune_cases:
  assumes "0 \<le> p" "p < 2 ^ 31"
  shows "(length str \<le> nat p \<longrightarrow> prune str p = str)
    \<and> (prune str p = str
        \<or> (\<exists>k. k \<le> nat p \<and> k + 3 \<le> length str \<and> prune str p = take k str @ ''...''
              \<and> \<not> (0 < k \<and> is_cased (str ! (k - 1)) \<and> is_cased (str ! k))))
    \<and> length (prune str p) \<le> nat p + 3"
proof (cases "int (length str) \<le> p")
  case True
  then show ?thesis using assms by (simp add: prune_def to_int32_id)
next
  case False
  define n where "n = nat p"
  have p: "p = int n" using assms(1) by (simp add: n_def)
  have lt: "n < length str" using False by (simp add: p)
  define k where "k = length (prune_template str (int n))"
  have kn: "k \<le> n" using prune_template_cut(1) [OF lt] by (simp add: k_def)
  have mid: "\<not> (0 < k \<and> is_cased (str ! (k - 1)) \<and> is_cased (str ! k))"
    using prune_template_cut(2) [OF lt] by (auto simp: k_def)
  have pr: "prune str p = (if k + 3 > length str then str else take k str @ ''...'')"
    using False assms
    by (simp add: prune_def to_int32_id Let_def k_def p [symmetric] slice_to_def)
  show ?thesis
  proof (cases "k + 3 > length str")
    case True
    with pr kn lt show ?thesis by (simp add: n_def)
  next
    case False
    then have "k + 3 \<le> length str" by simp
    moreover have "prune str p = take k str @ ''...''" using False pr by simp
    moreover have "length (take k str @ ''...'') \<le> n + 3" using kn by simp
    ultimately show ?thesis using kn mid lt unfolding n_def [symmetric]
      by (intro conjI impI disjI2 exI [of _ k]) simp_all
  qed
qed


text \<open>
  Claim C6, as stated, fails: the excerpt of the text \<open>Hello, world\<close> for \<open>pruneLength = 5\<close>
  is \<open>Hello...\<close>, eight characters.
\<close>

theorem excerpt_resolve_exceeds_pruneLength:
  "excerpt_resolve (Unist ''root'' None None
      [Unist ''paragraph'' None None [Unist ''text'' (Some ''Hello, world'') None []]]) 5
     = ''Hello...''
   \<and> \<not> length (excerpt_resolve (Unist ''root'' None None
      [Unist ''paragraph'' None None [Unist ''text'' (Some ''Hello, world'') None []]]) 5) \<le> 5"
  by (simp add: excerpt_resolve_def textNodes_preorder prune_def to_int32_id prune_template_def
      slice_to_def slice_from_def ends_in_two_word_chars_def nonword_then_word_def
      is_word_char_def is_line_terminator_def tmpl_def is_cased_def rtrim_def is_space_char_def)

text \<open>
  Claim C6, amended. For \<open>0 \<le> pruneLength < 2^31\<close> the excerpt is \<open>prune\<close> of the values
  of the text nodes in document order, joined by one space. It is that text itself when the
  text has at most \<open>pruneLength\<close> characters; otherwise it is either the whole text or the
  first \<open>k \<le> pruneLength\<close> characters of it followed by the indicator \<open>...\<close>, where the cut
  never falls between two letters. The result has at most \<open>pruneLength + 3\<close> characters.
\<close>

theorem excerpt_resolve_word_boundary:
  assumes "0 \<le> pruneLength" "pruneLength < 2 ^ 31"
  shows "excerpt_resolve tree pruneLength
       = prune (join '' '' (map uvalue (filter (\<lambda>n. utype n = ''text'') (preorder tree)))) pruneLength
    \<and> (length (join '' '' (textNodes tree)) \<le> nat pruneLength
         \<longrightarrow> excerpt_resolve tree pruneLength = join '' '' (textNodes tree))
    \<and> (excerpt_resolve tree pruneLength = join '' '' (textNodes tree)
        \<or> (\<exists>k. k \<le> nat pruneLength \<and> k + 3 \<le> length (join '' '' (textNodes tree))
              \<and> excerpt_resolve tree pruneLength = take k (join '' '' (textNodes tree)) @ ''...''
              \<and> \<not> (0 < k \<and> is_cased (join '' '' (textNodes tree) ! (k - 1))
                           \<and> is_cased (join '' '' (textNodes tree) ! k))))
    \<and> length (excerpt_resolve tree pruneLength) \<le> nat pruneLength + 3"
  using prune_cases [OF assms, of "join '' '' (textNodes tree)"]
  by (simp add: excerpt_resolve_def textNodes_preorder [symmetric])

theorem excerpt_resolve_word_boundary_witness:
  "(0::int) \<le> 15 \<and> (15::int) < 2 ^ 31
   \<and> length (excerpt_resolve (Unist ''root'' None None
        [Unist ''paragraph'' None None [Unist ''text'' (Some ''Hello,'') None [],
           Unist ''emphasis'' None None [Unist ''text'' (Some ''cruel world'') None []]]]) 15)
       \<le> nat 15 + 3"
proof -
  have h: "(0::int) \<le> 15" "(15::int) < 2 ^ 31" by simp_all
  show ?thesis
    using h excerpt_resolve_word_boundary [OF h, THEN conjunct2, THEN conjunct2, THEN conjunct2]
    by blast
qed

section \<open>The AST cache: one run for each identifier and epoch\<close>

lemma dispatch_acts:
  "list_all (\<lambda>a. \<exists>j. a = called j) (fst (snd (dispatch export called i ps)))"
proof (induction ps arbitrary: i)
  case Nil
  then show ?case by simp
next
  case (Cons p ps)
  from Cons.IH [of "Suc i"] show ?case
    by (cases "dispatch export called (Suc i) ps") (auto split: option.splits)
qed

lemma getAST_hit:
  "cache_get (astPromiseCache s) (node_id n) = Some v \<Longrightarrow> getAST ps n s = (v, s)"
  by (simp add: getAST_def)

lemma getAST_miss:
  assumes "cache_get (astPromiseCache s) (node_id n) = None"
  shows "fst (getAST ps n s) = Promise_handle (length (runs s))"
    and "astPromiseCache (snd (getAST ps n s)) = (astPromiseCache s)(node_id n \<mapsto> length (runs s))"
    and "\<exists>r. runs (snd (getAST ps n s)) = runs s @ [r] \<and> run_node r = n \<and> run_plugins r = ps
          \<and> run_phase r = Mutating
          \<and> run_slots r = fst (dispatch mutateSource (Called_mutateSource (length (runs s))) 0 ps)
          \<and> run_failed r = snd (snd (dispatch mutateSource (Called_mutateSource (length (runs s))) 0 ps))
          \<and> run_promise r = (case run_failed r of None \<Rightarrow> Pending | Some e \<Rightarrow> Rejected e)"
    and "log (snd (getAST ps n s)) =
          fst (snd (dispatch mutateSource (Called_mutateSource (length (runs s))) 0 ps)) @ log s"
    and "invocations (snd (getAST ps n s)) = invocations s"
    and "html_promises (snd (getAST ps n s)) = html_promises s"
  using assms
  by (cases "dispatch mutateSource (Called_mutateSource (length (runs s))) 0 ps";
      simp add: getAST_def Let_def)+

lemma cache_get_upd_same: "cache_get (c(k \<mapsto> h)) k = Some (Promise_handle h)"
  by (simp add: cache_get_def)

lemma cache_get_upd_other: "k' \<noteq> k \<Longrightarrow> cache_get (c(k := x)) k' = cache_get c k'"
  by (simp add: cache_get_def)

lemma getAST_cached_after:
  "cache_get (astPromiseCache (snd (getAST ps n s))) (node_id n) = Some (fst (getAST ps n s))"
proof (cases "cache_get (astPromiseCache s) (node_id n)")
  case None
  then show ?thesis by (simp add: getAST_miss(1,2) cache_get_upd_same)
next
  case (Some v)
  then show ?thesis by (simp add: getAST_hit)
qed

lemma getAST_keeps_other:
  assumes "cache_get (astPromiseCache s) k = Some v"
  shows "cache_get (astPromiseCache (snd (getAST ps n s))) k = Some v"
proof (cases "cache_get (astPromiseCache s) (node_id n)")
  case None
  with assms have "k \<noteq> node_id n" by auto
  with None assms show ?thesis by (simp add: getAST_miss(2) cache_get_upd_other)
next
  case (Some w)
  with assms show ?thesis by (simp add: getAST_hit)
qed



lemma runs_extend_refl: "runs_extend ident s s"
  by (auto simp: runs_extend_def)

lemma runs_extend_trans:
  assumes a: "runs_extend ident s s'" and b: "runs_extend ident s' s''"
  shows "runs_extend ident s s''"
  unfolding runs_extend_def
proof (intro conjI allI impI)
  show "length (runs s) \<le> length (runs s'')"
    using a b by (simp add: runs_extend_def)
  fix j
  assume "j < length (runs s)"
  then show "node_id (run_node (runs s'' ! j)) = node_id (run_node (runs s ! j))"
    using a b by (simp add: runs_extend_def)
next
  fix j
  assume j: "length (runs s) \<le> j \<and> j < length (runs s'')"
  show "node_id (run_node (runs s'' ! j)) \<noteq> ident"
  proof (cases "j < length (runs s')")
    case True
    then have "node_id (run_node (runs s'' ! j)) = node_id (run_node (runs s' ! j))"
      using b by (simp add: runs_extend_def)
    moreover have "node_id (run_node (runs s' ! j)) \<noteq> ident"
      using a j True by (simp add: runs_extend_def)
    ultimately show ?thesis by simp
  next
    case False
    then show ?thesis using b j by (simp add: runs_extend_def)
  qed
qed

lemma getAST_runs_extend:
  assumes "cache_get (astPromiseCache s) ident \<noteq> None"
  shows "runs_extend ident s (snd (getAST ps n s))"
proof (cases "cache_get (astPromiseCache s) (node_id n)")
  case None
  with assms have ne: "node_id n \<noteq> ident" by auto
  from getAST_miss(3) [OF None, of ps] obtain r where
    r: "runs (snd (getAST ps n s)) = runs s @ [r]" "run_node r = n" by blast
  show ?thesis using ne by (auto simp: runs_extend_def r nth_append)
next
  case (Some v)
  then show ?thesis by (simp add: getAST_hit runs_extend_refl)
qed

lemma settle_plugin_fields [simp]:
  "astPromiseCache (settle_plugin h i s) = astPromiseCache s"
  "invocations (settle_plugin h i s) = invocations s"
  "html_promises (settle_plugin h i s) = html_promises s"
  "length (runs (settle_plugin h i s)) = length (runs s)"
  by (simp_all add: settle_plugin_def Let_def split: phase.splits option.splits)

lemma settle_plugin_node_id:
  "node_id (run_node (runs (settle_plugin h i s) ! j)) = node_id (run_node (runs s ! j))"
  by (cases "j = h")
     (simp_all add: settle_plugin_def Let_def split: phase.splits option.splits)

lemma then_callback_fields [simp]:
  "astPromiseCache (then_callback parse h s) = astPromiseCache s"
  "invocations (then_callback parse h s) = invocations s"
  "html_promises (then_callback parse h s) = html_promises s"
  "length (runs (then_callback parse h s)) = length (runs s)"
  by (simp_all add: then_callback_def Let_def split: phase.splits option.splits prod.splits)

lemma then_callback_node_id:
  "node_id (run_node (runs (then_callback parse h s) ! j)) = node_id (run_node (runs s ! j))"
  by (cases "j = h")
     (simp_all add: then_callback_def Let_def split: phase.splits option.splits prod.splits)


lemma html_callback_fields [simp]:
  "astPromiseCache (html_callback render hp s) = astPromiseCache s"
  "invocations (html_callback render hp s) = invocations s"
  "length (runs (html_callback render hp s)) = length (runs s)"
  "length (html_promises (html_callback render hp s)) = length (html_promises s)"
  by (simp_all add: html_callback_def split: html_promise.splits cache_value.splits
      promise_state.splits option.splits)

lemma html_callback_node_id:
  "node_id (run_node (runs (html_callback render hp s) ! j)) = node_id (run_node (runs s ! j))"
  by (simp add: html_callback_def nth_list_update split: html_promise.splits cache_value.splits
      promise_state.splits option.splits)

lemma onNodeCreate_fields [simp]:
  "runs (onNodeCreate node s) = runs s"
  "invocations (onNodeCreate node s) = invocations s"
  "html_promises (onNodeCreate node s) = html_promises s"
  "log (onNodeCreate node s) = log s"
  by (simp_all add: onNodeCreate_def)

lemma extendNodeType_fields [simp]:
  "astPromiseCache (snd (extendNodeType ty ps s)) = astPromiseCache s"
  "runs (snd (extendNodeType ty ps s)) = runs s"
  "html_promises (snd (extendNodeType ty ps s)) = html_promises s"
  "log (snd (extendNodeType ty ps s)) = log s"
  by (simp_all add: extendNodeType_def)

lemma getHTML_cases:
  "getHTML ix n s = (None, s) \<or> (\<exists>v. getHTML ix n s = (Some v, s))
   \<or> (ix < length (invocations s)
       \<and> snd (getHTML ix n s) = (snd (getAST (inst_plugins (invocations s ! ix)) n s))
           \<lparr>html_promises := html_promises (snd (getAST (inst_plugins (invocations s ! ix)) n s))
               @ [Html_waiting (fst (getAST (inst_plugins (invocations s ! ix)) n s))],
            invocations := (invocations (snd (getAST (inst_plugins (invocations s ! ix)) n s)))
               [ix := (invocations s ! ix)\<lparr>htmlPromisesCache :=
                  (htmlPromisesCache (invocations s ! ix))
                    (node_id n \<mapsto> length (html_promises (snd (getAST (inst_plugins (invocations s ! ix)) n s))))\<rparr>]\<rparr>)"
  by (simp add: getHTML_def Let_def split: option.splits prod.splits)


lemma getHTML_astPromiseCache:
  "astPromiseCache (snd (getHTML ix n s)) = astPromiseCache s
   \<or> (ix < length (invocations s)
      \<and> astPromiseCache (snd (getHTML ix n s))
          = astPromiseCache (snd (getAST (inst_plugins (invocations s ! ix)) n s)))"
  using getHTML_cases [of ix n s] by auto

lemma getHTML_runs:
  "runs (snd (getHTML ix n s)) = runs s
   \<or> (ix < length (invocations s)
      \<and> runs (snd (getHTML ix n s)) = runs (snd (getAST (inst_plugins (invocations s ! ix)) n s)))"
  using getHTML_cases [of ix n s] by auto

lemma runs_extend_cong:
  "runs s'' = runs s' \<Longrightarrow> runs_extend ident s s' \<Longrightarrow> runs_extend ident s s''"
  by (simp add: runs_extend_def)

lemma runs_extend_same_length:
  assumes "length (runs s') = length (runs s)"
    and "\<And>j. node_id (run_node (runs s' ! j)) = node_id (run_node (runs s ! j))"
  shows "runs_extend ident s s'"
  using assms by (auto simp: runs_extend_def)

lemma step_keeps_cache:
  assumes "\<not> invalidates ident e" "cache_get (astPromiseCache s) ident = Some v"
  shows "cache_get (astPromiseCache (step parse render e s)) ident = Some v"
proof (cases e)
  case (Call_getAST ix n)
  then show ?thesis using assms(2) by (simp add: step_def getAST_keeps_other)
next
  case (Call_getHTML ix n)
  then show ?thesis
    using assms(2) getHTML_astPromiseCache [of ix n s] by (auto simp: step_def getAST_keeps_other)
next
  case (Invoke_onNodeCreate node)
  with assms(1) have "node_type node \<noteq> ''MarkdownRemark'' \<or> node_id node \<noteq> ident"
    by (simp add: invalidates_def)
  then show ?thesis
    using assms(2) Invoke_onNodeCreate
    by (auto simp: step_def onNodeCreate_def cache_get_upd_other)
qed (use assms(2) in \<open>simp_all add: step_def\<close>)

lemma step_runs_extend:
  assumes "cache_get (astPromiseCache s) ident \<noteq> None"
  shows "runs_extend ident s (step parse render e s)"
proof (cases e)
  case (Invoke_extendNodeType ty ps)
  then show ?thesis by (simp add: step_def runs_extend_cong [OF _ runs_extend_refl])
next
  case (Call_getAST ix n)
  then show ?thesis using assms by (simp add: step_def getAST_runs_extend runs_extend_refl)
next
  case (Call_getHTML ix n)
  then show ?thesis
    using getHTML_runs [of ix n s] assms
    by (auto simp: step_def intro: runs_extend_cong [OF _ runs_extend_refl]
        runs_extend_cong [OF _ getAST_runs_extend])
next
  case (Plugin_settles h i)
  then show ?thesis
    by (simp add: step_def runs_extend_same_length settle_plugin_node_id)
next
  case (Then_callback h)
  then show ?thesis
    by (simp add: step_def runs_extend_same_length then_callback_node_id)
next
  case (Html_callback hp)
  then show ?thesis
    by (simp add: step_def runs_extend_same_length html_callback_node_id)
next
  case (Invoke_onNodeCreate node)
  then show ?thesis by (simp add: step_def runs_extend_cong [OF _ runs_extend_refl])
qed

lemma exec_Nil [simp]: "exec parse render [] s = s"
  by (simp add: exec_def)

lemma exec_Cons [simp]: "exec parse render (e # es) s = exec parse render es (step parse render e s)"
  by (simp add: exec_def)

lemma exec_append: "exec parse render (es @ es') s = exec parse render es' (exec parse render es s)"
  by (simp add: exec_def)

lemma exec_keeps_cache:
  assumes "list_all (\<lambda>e. \<not> invalidates ident e) es" "cache_get (astPromiseCache s) ident = Some v"
  shows "cache_get (astPromiseCache (exec parse render es s)) ident = Some v
       \<and> runs_extend ident s (exec parse render es s)"
  using assms
proof (induction es arbitrary: s)
  case Nil
  then show ?case by (simp add: runs_extend_refl)
next
  case (Cons e es)
  from Cons.prems have e: "\<not> invalidates ident e" and es: "list_all (\<lambda>e. \<not> invalidates ident e) es"
    by simp_all
  have c: "cache_get (astPromiseCache (step parse render e s)) ident = Some v"
    using step_keeps_cache [OF e Cons.prems(2)] .
  have r: "runs_extend ident s (step parse render e s)"
    using step_runs_extend [of s ident] Cons.prems(2) by simp
  from Cons.IH [OF es c] r show ?case
    by (auto intro: runs_extend_trans)
qed

lemma getAST_stores_handle:
  assumes "node_id n \<notin> set object_prototype_keys"
  shows "\<exists>h. fst (getAST ps n s) = Promise_handle h
     \<and> astPromiseCache (snd (getAST ps n s)) (node_id n) = Some h"
  using getAST_cached_after [of ps n s] assms
  by (auto simp: cache_get_def split: option.splits)

lemma getAST_inherited:
  assumes "astPromiseCache s (node_id n) = None" "node_id n \<in> set object_prototype_keys"
  shows "getAST ps n s = (Inherited (node_id n), s)"
  using assms by (simp add: getAST_def cache_get_def)

text \<open>
  Claim C1, as stated, fails for the identifiers that name a property of
  \<open>Object.prototype\<close>: for the identifier \<open>constructor\<close> the lookup in the empty cache is
  truthy, so \<open>getAST\<close> returns the inherited value, stores no handle and starts no run.
\<close>

theorem getAST_inherited_key_stores_nothing:
  "getAST [mutating_plugin] (example_node\<lparr>node_id := ''constructor''\<rparr>) initial_state
     = (Inherited ''constructor'', initial_state)
   \<and> astPromiseCache (snd (getAST [mutating_plugin] (example_node\<lparr>node_id := ''constructor''\<rparr>)
        initial_state)) ''constructor'' = None
   \<and> runs (snd (getAST [mutating_plugin] (example_node\<lparr>node_id := ''constructor''\<rparr>)
        initial_state)) = []"
  by (simp add: getAST_def cache_get_def initial_state_def example_node_def
      object_prototype_keys_def)

text \<open>
  Claim C1, amended. Take any call of \<open>getAST\<close> for a record, then any events among which
  none invalidates the record's identifier (calls for this or other records, settling
  plugins, callbacks, invalidations of other identifiers, further invocations). A call of
  \<open>getAST\<close> that follows, from any invocation and for any record with that identifier,
  returns the value the first call returned and changes nothing, and no run created in
  between is for that identifier. For an identifier that names no property of
  \<open>Object.prototype\<close>, the first call returns a promise, and that promise is in the cache
  under the identifier when the call returns; when the call found no entry, the promise is
  that of a new run which until then has only made its \<open>mutateSource\<close> calls: no callback
  has run, nothing is parsed. For an identifier that names a property of \<open>Object.prototype\<close>
  and has no entry, \<open>getAST\<close> returns the inherited value, stores nothing and starts no run.
\<close>

theorem getAST_one_handle_per_epoch:
  assumes "list_all (\<lambda>e. \<not> invalidates (node_id n) e) es" and "node_id n' = node_id n"
  shows "getAST ps' n' (exec parse render es (snd (getAST ps n s)))
       = (fst (getAST ps n s), exec parse render es (snd (getAST ps n s)))
    \<and> (\<forall>j. length (runs (snd (getAST ps n s))) \<le> j
           \<and> j < length (runs (exec parse render es (snd (getAST ps n s))))
         \<longrightarrow> node_id (run_node (runs (exec parse render es (snd (getAST ps n s))) ! j)) \<noteq> node_id n)
    \<and> (node_id n \<notin> set object_prototype_keys \<longrightarrow>
         (\<exists>h. fst (getAST ps n s) = Promise_handle h
            \<and> astPromiseCache (snd (getAST ps n s)) (node_id n) = Some h
            \<and> astPromiseCache (exec parse render es (snd (getAST ps n s))) (node_id n) = Some h))
    \<and> (node_id n \<notin> set object_prototype_keys \<and> astPromiseCache s (node_id n) = None \<longrightarrow>
         fst (getAST ps n s) = Promise_handle (length (runs s))
       \<and> astPromiseCache (snd (getAST ps n s)) (node_id n) = Some (length (runs s))
       \<and> length (runs (snd (getAST ps n s))) = Suc (length (runs s))
       \<and> run_phase (runs (snd (getAST ps n s)) ! length (runs s)) = Mutating
       \<and> run_promise (runs (snd (getAST ps n s)) ! length (runs s)) \<noteq> Fulfilled
       \<and> (\<exists>acts. log (snd (getAST ps n s)) = acts @ log s
             \<and> list_all (\<lambda>a. \<exists>i. a = Called_mutateSource (length (runs s)) i) acts))
    \<and> (node_id n \<in> set object_prototype_keys \<and> astPromiseCache s (node_id n) = None \<longrightarrow>
         getAST ps n s = (Inherited (node_id n), s))"
proof (intro conjI)
  let ?s1 = "snd (getAST ps n s)"
  let ?s2 = "exec parse render es ?s1"
  have c1: "cache_get (astPromiseCache ?s1) (node_id n) = Some (fst (getAST ps n s))"
    by (rule getAST_cached_after)
  from exec_keeps_cache [OF assms(1) c1]
  have c2: "cache_get (astPromiseCache ?s2) (node_id n) = Some (fst (getAST ps n s))"
    and ext: "runs_extend (node_id n) ?s1 ?s2" by simp_all
  show "getAST ps' n' ?s2 = (fst (getAST ps n s), ?s2)"
    using c2 assms(2) by (simp add: getAST_hit)
  show "\<forall>j. length (runs ?s1) \<le> j \<and> j < length (runs ?s2)
         \<longrightarrow> node_id (run_node (runs ?s2 ! j)) \<noteq> node_id n"
    using ext by (simp add: runs_extend_def)
  show "node_id n \<notin> set object_prototype_keys \<longrightarrow>
         (\<exists>h. fst (getAST ps n s) = Promise_handle h
            \<and> astPromiseCache ?s1 (node_id n) = Some h
            \<and> astPromiseCache ?s2 (node_id n) = Some h)"
  proof
    assume k: "node_id n \<notin> set object_prototype_keys"
    from getAST_stores_handle [OF k, of ps s] obtain h where
      h: "fst (getAST ps n s) = Promise_handle h" "astPromiseCache ?s1 (node_id n) = Some h"
      by blast
    have "astPromiseCache ?s2 (node_id n) = Some h"
      using c2 h(1) k by (auto simp: cache_get_def split: option.splits)
    with h show "\<exists>h. fst (getAST ps n s) = Promise_handle h
            \<and> astPromiseCache ?s1 (node_id n) = Some h
            \<and> astPromiseCache ?s2 (node_id n) = Some h" by blast
  qed
  show "node_id n \<notin> set object_prototype_keys \<and> astPromiseCache s (node_id n) = None \<longrightarrow>
         fst (getAST ps n s) = Promise_handle (length (runs s))
       \<and> astPromiseCache ?s1 (node_id n) = Some (length (runs s))
       \<and> length (runs ?s1) = Suc (length (runs s))
       \<and> run_phase (runs ?s1 ! length (runs s)) = Mutating
       \<and> run_promise (runs ?s1 ! length (runs s)) \<noteq> Fulfilled
       \<and> (\<exists>acts. log ?s1 = acts @ log s
             \<and> list_all (\<lambda>a. \<exists>i. a = Called_mutateSource (length (runs s)) i) acts)"
  proof
    assume "node_id n \<notin> set object_prototype_keys \<and> astPromiseCache s (node_id n) = None"
    then have miss: "cache_get (astPromiseCache s) (node_id n) = None"
      by (simp add: cache_get_def)
    from getAST_miss(3) [OF miss, of ps] obtain r where
      r: "runs ?s1 = runs s @ [r]" "run_phase r = Mutating"
         "run_promise r = (case run_failed r of None \<Rightarrow> Pending | Some e \<Rightarrow> Rejected e)"
      by blast
    have nf: "run_promise r \<noteq> Fulfilled" using r(3) by (simp split: option.splits)
    have "list_all (\<lambda>a. \<exists>i. a = Called_mutateSource (length (runs s)) i)
            (fst (snd (dispatch mutateSource (Called_mutateSource (length (runs s))) 0 ps)))"
      by (rule dispatch_acts)
    then show "fst (getAST ps n s) = Promise_handle (length (runs s))
       \<and> astPromiseCache ?s1 (node_id n) = Some (length (runs s))
       \<and> length (runs ?s1) = Suc (length (runs s))
       \<and> run_phase (runs ?s1 ! length (runs s)) = Mutating
       \<and> run_promise (runs ?s1 ! length (runs s)) \<noteq> Fulfilled
       \<and> (\<exists>acts. log ?s1 = acts @ log s
             \<and> list_all (\<lambda>a. \<exists>i. a = Called_mutateSource (length (runs s)) i) acts)"
      using getAST_miss(1,2,4) [OF miss, of ps] r nf by auto
  qed
  show "node_id n \<in> set object_prototype_keys \<and> astPromiseCache s (node_id n) = None \<longrightarrow>
         getAST ps n s = (Inherited (node_id n), s)"
    using getAST_inherited [of s n ps] by blast
qed

theorem getAST_one_handle_per_epoch_witness:
  "list_all (\<lambda>e. \<not> invalidates (node_id example_node) e)
     [Plugin_settles 0 0, Invoke_onNodeCreate (example_node\<lparr>node_id := ''b.md''\<rparr>),
      Then_callback 0, Call_getAST 0 (example_node\<lparr>node_id := ''b.md''\<rparr>)]
   \<and> node_id (example_node\<lparr>src := ''changed''\<rparr>) = node_id example_node
   \<and> node_id example_node \<notin> set object_prototype_keys
   \<and> astPromiseCache (snd (extendNodeType ''MarkdownRemark'' [mutating_plugin] initial_state))
        (node_id example_node) = None
   \<and> fst (getAST [mutating_plugin] example_node
        (snd (extendNodeType ''MarkdownRemark'' [mutating_plugin] initial_state)))
      = Promise_handle 0
   \<and> astPromiseCache (snd (getAST [mutating_plugin] example_node
        (snd (extendNodeType ''MarkdownRemark'' [mutating_plugin] initial_state))))
        (node_id example_node) = Some 0
   \<and> fst (getAST [] (example_node\<lparr>src := ''changed''\<rparr>)
        (exec example_parse example_render
          [Plugin_settles 0 0, Invoke_onNodeCreate (example_node\<lparr>node_id := ''b.md''\<rparr>),
           Then_callback 0, Call_getAST 0 (example_node\<lparr>node_id := ''b.md''\<rparr>)]
          (snd (getAST [mutating_plugin] example_node
             (snd (extendNodeType ''MarkdownRemark'' [mutating_plugin] initial_state))))))
      = Promise_handle 0"
proof -
  let ?s = "snd (extendNodeType ''MarkdownRemark'' [mutating_plugin] initial_state)"
  let ?es = "[Plugin_settles 0 0, Invoke_onNodeCreate (example_node\<lparr>node_id := ''b.md''\<rparr>),
      Then_callback 0, Call_getAST 0 (example_node\<lparr>node_id := ''b.md''\<rparr>)]"
  have h1: "list_all (\<lambda>e. \<not> invalidates (node_id example_node) e) ?es"
    by (simp add: invalidates_def example_node_def)
  have h2: "node_id (example_node\<lparr>src := ''changed''\<rparr>) = node_id example_node"
    by simp
  have k: "node_id example_node \<notin> set object_prototype_keys"
    "astPromiseCache ?s (node_id example_node) = None"
    by (simp_all add: example_node_def object_prototype_keys_def extendNodeType_def
        initial_state_def)
  have l: "length (runs ?s) = 0" by (simp add: extendNodeType_def initial_state_def)
  note t = getAST_one_handle_per_epoch [OF h1 h2, of "[]" example_parse example_render
      "[mutating_plugin]" ?s]
  from t k have first: "fst (getAST [mutating_plugin] example_node ?s) = Promise_handle 0"
    "astPromiseCache (snd (getAST [mutating_plugin] example_node ?s)) (node_id example_node) = Some 0"
    unfolding l by blast+
  from t have "fst (getAST [] (example_node\<lparr>src := ''changed''\<rparr>)
        (exec example_parse example_render ?es (snd (getAST [mutating_plugin] example_node ?s))))
      = fst (getAST [mutating_plugin] example_node ?s)"
    by simp
  with first h1 h2 k show ?thesis by simp
qed

section \<open>The scope of the two caches\<close>

lemma getAST_invocations [simp]: "invocations (snd (getAST ps n s)) = invocations s"
  by (cases "cache_get (astPromiseCache s) (node_id n)") (simp_all add: getAST_hit getAST_miss)

lemma getAST_html_promises [simp]: "html_promises (snd (getAST ps n s)) = html_promises s"
  by (cases "cache_get (astPromiseCache s) (node_id n)") (simp_all add: getAST_hit getAST_miss)

lemma getHTML_other_invocation:
  assumes "j \<noteq> ix"
  shows "invocations (snd (getHTML ix n s)) ! j = invocations s ! j"
  using getHTML_cases [of ix n s] assms by auto

lemma getHTML_length_invocations [simp]:
  "length (invocations (snd (getHTML ix n s))) = length (invocations s)"
  using getHTML_cases [of ix n s] by auto

text \<open>
  Claim C9, as stated, fails for \<open>htmlPromisesCache\<close>: after two invocations of
  \<open>extendNodeType\<close> and a call of \<open>getHTML\<close> through the first, the first invocation's cache has
  an entry for the record and the second's has none, so \<open>getHTML\<close> through the second builds
  a second HTML promise.
\<close>

theorem htmlPromisesCache_is_per_invocation:
  "htmlPromisesCache (invocations (snd (getHTML 0 example_node
       (snd (extendNodeType ''MarkdownRemark'' []
         (snd (extendNodeType ''MarkdownRemark'' [] initial_state)))))) ! 0) ''a.md'' = Some 0
   \<and> htmlPromisesCache (invocations (snd (getHTML 0 example_node
       (snd (extendNodeType ''MarkdownRemark'' []
         (snd (extendNodeType ''MarkdownRemark'' [] initial_state)))))) ! 1) ''a.md'' = None
   \<and> fst (getHTML 1 example_node (snd (getHTML 0 example_node
       (snd (extendNodeType ''MarkdownRemark'' []
         (snd (extendNodeType ''MarkdownRemark'' [] initial_state)))))))
      = Some (Promise_handle 1)"
  by (simp add: getHTML_def getAST_def extendNodeType_def initial_state_def cache_get_def
      example_node_def object_prototype_keys_def Let_def)

text \<open>
  Claim C9, amended. \<open>astPromiseCache\<close> is one module-level map: \<open>extendNodeType\<close> neither
  creates nor changes it, and what \<open>getAST\<close> of one invocation stored is what \<open>getAST\<close> of any
  invocation returns for the same identifier. \<open>htmlPromisesCache\<close> is created empty by each
  invocation of \<open>extendNodeType\<close> for \<open>MarkdownRemark\<close>, and \<open>getHTML\<close> of one invocation
  leaves the \<open>htmlPromisesCache\<close> of every other invocation as it was.
\<close>

theorem cache_scopes:
  "astPromiseCache (snd (extendNodeType type_name ps s)) = astPromiseCache s
   \<and> (type_name = ''MarkdownRemark'' \<longrightarrow>
        invocations (snd (extendNodeType type_name ps s))
          = invocations s @ [\<lparr>inst_plugins = ps, htmlPromisesCache = Map.empty\<rparr>])
   \<and> (node_id n' = node_id n \<longrightarrow>
        getAST ps' n' (snd (getAST ps n s)) = (fst (getAST ps n s), snd (getAST ps n s)))
   \<and> (j \<noteq> ix \<longrightarrow> invocations (snd (getHTML ix n s)) ! j = invocations s ! j)"
proof (intro conjI impI)
  show "astPromiseCache (snd (extendNodeType type_name ps s)) = astPromiseCache s"
    by (simp add: extendNodeType_def)
  show "invocations (snd (extendNodeType type_name ps s))
          = invocations s @ [\<lparr>inst_plugins = ps, htmlPromisesCache = Map.empty\<rparr>]"
    if "type_name = ''MarkdownRemark''"
    using that by (simp add: extendNodeType_def)
  show "getAST ps' n' (snd (getAST ps n s)) = (fst (getAST ps n s), snd (getAST ps n s))"
    if "node_id n' = node_id n"
    using that getAST_cached_after [of ps n s] by (simp add: getAST_hit)
  show "invocations (snd (getHTML ix n s)) ! j = invocations s ! j" if "j \<noteq> ix"
    using that by (rule getHTML_other_invocation)
qed

theorem cache_scopes_witness:
  "''MarkdownRemark'' = ''MarkdownRemark''
   \<and> invocations (snd (extendNodeType ''MarkdownRemark'' [mutating_plugin] initial_state))
       = invocations initial_state @ [\<lparr>inst_plugins = [mutating_plugin], htmlPromisesCache = Map.empty\<rparr>]
   \<and> node_id example_node = node_id example_node
   \<and> getAST [] example_node (snd (getAST [mutating_plugin] example_node initial_state))
       = (fst (getAST [mutating_plugin] example_node initial_state),
          snd (getAST [mutating_plugin] example_node initial_state))
   \<and> (1::nat) \<noteq> 0
   \<and> invocations (snd (getHTML 0 example_node initial_state)) ! 1 = invocations initial_state ! 1"
  using cache_scopes [where type_name = "''MarkdownRemark''" and ps = "[mutating_plugin]"
      and s = initial_state and n = example_node and n' = example_node and ps' = "[]"
      and j = 1 and ix = 0]
  by simp

section \<open>A rejected plugin promise\<close>

lemma getAST_runs_prefix:
  "\<exists>new. runs (snd (getAST ps n s)) = runs s @ new"
proof (cases "cache_get (astPromiseCache s) (node_id n)")
  case None
  from getAST_miss(3) [OF None, of ps] show ?thesis by blast
next
  case (Some v)
  then show ?thesis by (simp add: getAST_hit)
qed

lemma getAST_stuck: "stuck h e p tree s \<Longrightarrow> stuck h e p tree (snd (getAST ps n s))"
  using getAST_runs_prefix [of ps n s] by (auto simp: stuck_def nth_append)

lemma getHTML_stuck: "stuck h e p tree s \<Longrightarrow> stuck h e p tree (snd (getHTML ix n s))"
  using getHTML_runs [of ix n s] getAST_stuck [of h e p tree s]
  by (auto simp: stuck_def)

lemma first_failure_Some [simp]: "first_failure (Some e) outcome = Some e"
  by (simp add: first_failure_def)

lemma settle_plugin_stuck: "stuck h e p tree s \<Longrightarrow> stuck h e p tree (settle_plugin h' i s)"
  by (cases "h' = h")
     (simp_all add: stuck_def settle_plugin_def Let_def
       split: phase.splits option.splits)

lemma then_callback_stuck: "stuck h e p tree s \<Longrightarrow> stuck h e p tree (then_callback parse h' s)"
  by (cases "h' = h")
     (simp_all add: stuck_def then_callback_def Let_def
       split: phase.splits option.splits prod.splits)

lemma html_callback_stuck: "stuck h e p tree s \<Longrightarrow> stuck h e p tree (html_callback render hp s)"
  by (auto simp: stuck_def html_callback_def nth_list_update
       split: html_promise.splits cache_value.splits promise_state.splits option.splits)

lemma step_stuck: "stuck h e p tree s \<Longrightarrow> stuck h e p tree (step parse render ev s)"
  by (cases ev)
     (simp_all add: step_def getAST_stuck getHTML_stuck settle_plugin_stuck then_callback_stuck
        html_callback_stuck, simp_all add: stuck_def)

lemma exec_stuck: "stuck h e p tree s \<Longrightarrow> stuck h e p tree (exec parse render es s)"
  by (induction es arbitrary: s) (simp_all add: step_stuck)

lemma settle_plugin_rejection:
  assumes "h < length (runs s)"
    and "i < length (run_slots (runs s ! h))" and "i < length (run_plugins (runs s ! h))"
    and "run_slots (runs s ! h) ! i = Waiting"
    and "rejection_of (run_phase (runs s ! h)) (run_plugins (runs s ! h) ! i) = Some e"
  shows "stuck h (case run_failed (runs s ! h) of None \<Rightarrow> e | Some earlier \<Rightarrow> earlier)
     (run_promise (runs s ! h)) (ast (run_node (runs s ! h))) (settle_plugin h i s)"
  using assms
  by (auto simp: stuck_def settle_plugin_def Let_def first_failure_def rejection_of_def
      split: phase.splits option.splits settle.splits)

lemma getAST_promises_ok:
  assumes "promises_ok s"
  shows "promises_ok (snd (getAST ps n s))"
proof (cases "cache_get (astPromiseCache s) (node_id n)")
  case (Some v)
  then show ?thesis using assms by (simp add: getAST_hit)
next
  case None
  from getAST_miss(3) [OF None, of ps] obtain r where
    r: "runs (snd (getAST ps n s)) = runs s @ [r]" "run_phase r = Mutating"
       "run_promise r = (case run_failed r of None \<Rightarrow> Pending | Some e \<Rightarrow> Rejected e)"
    by blast
  have "promise_ok r" using r(2,3) by (simp add: promise_ok_def split: option.splits)
  then show ?thesis
    using assms by (auto simp: promises_ok_def r(1) nth_append less_Suc_eq)
qed

lemma getHTML_promises_ok:
  assumes "promises_ok s"
  shows "promises_ok (snd (getHTML ix n s))"
  using getHTML_runs [of ix n s] getAST_promises_ok [OF assms] assms
  by (auto simp: promises_ok_def)

lemma promises_ok_update:
  assumes "promises_ok s" and "runs s' = (runs s)[h := r']"
    and "h < length (runs s) \<Longrightarrow> promise_ok (runs s ! h) \<Longrightarrow> promise_ok r'"
  shows "promises_ok s'"
  unfolding promises_ok_def
proof (intro allI impI)
  fix k assume k: "k < length (runs s')"
  show "promise_ok (runs s' ! k)"
  proof (cases "k = h")
    case True
    then show ?thesis using assms k by (simp add: promises_ok_def)
  next
    case False
    then show ?thesis using assms(1,2) k by (simp add: promises_ok_def)
  qed
qed

lemma settle_plugin_promises_ok:
  assumes "promises_ok s"
  shows "promises_ok (settle_plugin h i s)"
proof -
  let ?r = "runs s ! h"
  have "settle_plugin h i s = s
    \<or> (\<exists>r'. runs (settle_plugin h i s) = (runs s)[h := r'] \<and> run_promise r' = run_promise ?r
          \<and> (run_phase ?r = Complete \<longrightarrow> run_phase r' = Complete)
          \<and> (run_failed r' = None \<longrightarrow> run_failed ?r = None))"
    by (auto simp: settle_plugin_def Let_def first_failure_def split: phase.splits option.splits)
  then show ?thesis
  proof (elim disjE exE conjE)
    assume "settle_plugin h i s = s"
    then show ?thesis using assms by simp
  next
    fix r'
    assume r': "runs (settle_plugin h i s) = (runs s)[h := r']" "run_promise r' = run_promise ?r"
      "run_phase ?r = Complete \<longrightarrow> run_phase r' = Complete"
      "run_failed r' = None \<longrightarrow> run_failed ?r = None"
    show ?thesis
      by (rule promises_ok_update [OF assms r'(1)]) (use r'(2-4) in \<open>auto simp: promise_ok_def\<close>)
  qed
qed

lemma then_callback_promises_ok:
  assumes "promises_ok s"
  shows "promises_ok (then_callback parse h s)"
proof -
  let ?r = "runs s ! h"
  have "then_callback parse h s = s
    \<or> (\<exists>r'. runs (then_callback parse h s) = (runs s)[h := r']
          \<and> ((run_promise r' = Fulfilled \<and> run_phase r' = Complete \<and> run_failed r' = run_failed ?r)
             \<or> (run_promise r' = run_promise ?r \<and> run_phase ?r = Mutating
                 \<and> run_failed ?r = None)))"
    by (cases "dispatch annotate (Called_annotate h) 0 (run_plugins ?r)")
       (auto simp: then_callback_def Let_def split: phase.splits)
  then show ?thesis
  proof (elim disjE exE conjE)
    assume "then_callback parse h s = s"
    then show ?thesis using assms by simp
  next
    fix r'
    assume r': "runs (then_callback parse h s) = (runs s)[h := r']"
      "run_promise r' = Fulfilled" "run_phase r' = Complete" "run_failed r' = run_failed ?r"
    show ?thesis
      by (rule promises_ok_update [OF assms r'(1)]) (use r'(2-4) in \<open>auto simp: promise_ok_def\<close>)
  next
    fix r'
    assume r': "runs (then_callback parse h s) = (runs s)[h := r']"
      "run_promise r' = run_promise ?r" "run_phase ?r = Mutating" "run_failed ?r = None"
    show ?thesis
      by (rule promises_ok_update [OF assms r'(1)]) (use r'(2-4) in \<open>auto simp: promise_ok_def\<close>)
  qed
qed

lemma html_callback_promises_ok:
  assumes "promises_ok s"
  shows "promises_ok (html_callback render hp s)"
  using assms
  by (auto simp: promises_ok_def promise_ok_def html_callback_def nth_list_update
       split: html_promise.splits cache_value.splits promise_state.splits option.splits)

lemma step_promises_ok:
  "promises_ok s \<Longrightarrow> promises_ok (step parse render ev s)"
  by (cases ev)
     (simp_all add: step_def getAST_promises_ok getHTML_promises_ok
        settle_plugin_promises_ok then_callback_promises_ok
        html_callback_promises_ok, simp_all add: promises_ok_def)

lemma exec_promises_ok:
  "promises_ok s \<Longrightarrow> promises_ok (exec parse render es s)"
  by (induction es arbitrary: s) (simp_all add: step_promises_ok)

lemma initial_promises_ok: "promises_ok initial_state"
  by (simp add: promises_ok_def initial_state_def)

lemma rejection_of_Complete [simp]: "rejection_of Complete p = None"
  by (simp add: rejection_of_def)

text \<open>
  Claim C2, amended. Take any state the module can reach and a plugin call of a run whose
  promise is not yet settled. When that promise rejects, in either phase, the rejection never
  reaches the promise in the cache: whatever happens afterwards, the cached promise keeps
  the state it had and is never fulfilled. A pending promise stays pending (so its waiters,
  present and future, receive neither a record nor the failure), and the promise is pending
  whenever no failure of the run was recorded before; a promise that was already rejected,
  by a \<open>mutateSource\<close> call that threw, stays rejected as it was. The rejection stays
  recorded on the inner chain only, where the first one is kept, and the \<open>ast\<close> field of the
  record is not assigned.
\<close>

theorem rejection_never_reaches_cached_promise:
  assumes "h < length (runs (exec parse render before initial_state))"
    and "i < length (run_slots (runs (exec parse render before initial_state) ! h))"
    and "i < length (run_plugins (runs (exec parse render before initial_state) ! h))"
    and "run_slots (runs (exec parse render before initial_state) ! h) ! i = Waiting"
    and "rejection_of (run_phase (runs (exec parse render before initial_state) ! h))
           (run_plugins (runs (exec parse render before initial_state) ! h) ! i) = Some e"
  shows "run_promise (runs (exec parse render es
            (settle_plugin h i (exec parse render before initial_state))) ! h)
        = run_promise (runs (exec parse render before initial_state) ! h)
    \<and> run_promise (runs (exec parse render es
            (settle_plugin h i (exec parse render before initial_state))) ! h) \<noteq> Fulfilled
    \<and> (run_failed (runs (exec parse render before initial_state) ! h) = None
        \<longrightarrow> run_promise (runs (exec parse render es
            (settle_plugin h i (exec parse render before initial_state))) ! h) = Pending)
    \<and> run_failed (runs (exec parse render es
            (settle_plugin h i (exec parse render before initial_state))) ! h)
        = Some (case run_failed (runs (exec parse render before initial_state) ! h) of
                  None \<Rightarrow> e | Some earlier \<Rightarrow> earlier)
    \<and> ast (run_node (runs (exec parse render es
            (settle_plugin h i (exec parse render before initial_state))) ! h))
        = ast (run_node (runs (exec parse render before initial_state) ! h))"
proof -
  let ?s = "exec parse render before initial_state"
  let ?s' = "exec parse render es (settle_plugin h i ?s)"
  have st: "stuck h (case run_failed (runs ?s ! h) of None \<Rightarrow> e | Some earlier \<Rightarrow> earlier)
     (run_promise (runs ?s ! h)) (ast (run_node (runs ?s ! h))) ?s'"
    by (rule exec_stuck [OF settle_plugin_rejection [OF assms]])
  have "promises_ok ?s" by (rule exec_promises_ok [OF initial_promises_ok])
  then have ok: "promise_ok (runs ?s ! h)" using assms(1) by (simp add: promises_ok_def)
  have nf: "run_promise (runs ?s ! h) \<noteq> Fulfilled"
    using ok assms(5) by (auto simp: promise_ok_def)
  have pend: "run_promise (runs ?s ! h) = Pending" if "run_failed (runs ?s ! h) = None"
    using ok nf that by (auto simp: promise_ok_def)
  from st nf pend show ?thesis by (simp add: stuck_def)
qed

text \<open>
  Claim C2, as stated, fails: with one plugin whose \<open>mutateSource\<close> promise rejects, the
  cached promise is still pending after the rejection and after the callback had its turn,
  and a later call of \<open>getAST\<close> is handed that same pending promise.
\<close>

theorem rejection_is_not_propagated:
  "run_promise (runs (then_callback example_parse 0 (settle_plugin 0 0
       (snd (getAST [rejecting_plugin] example_node initial_state)))) ! 0) = Pending
   \<and> fst (getAST [rejecting_plugin] example_node (then_callback example_parse 0 (settle_plugin 0 0
       (snd (getAST [rejecting_plugin] example_node initial_state))))) = Promise_handle 0"
  by (simp add: getAST_def settle_plugin_def then_callback_def initial_state_def cache_get_def
      example_node_def object_prototype_keys_def rejecting_plugin_def Let_def first_failure_def)

theorem rejection_never_reaches_cached_promise_witness:
  "0 < length (runs (exec example_parse example_render
        [Invoke_extendNodeType ''MarkdownRemark'' [rejecting_plugin], Call_getAST 0 example_node]
        initial_state))
   \<and> 0 < length (run_slots (runs (exec example_parse example_render
        [Invoke_extendNodeType ''MarkdownRemark'' [rejecting_plugin], Call_getAST 0 example_node]
        initial_state) ! 0))
   \<and> 0 < length (run_plugins (runs (exec example_parse example_render
        [Invoke_extendNodeType ''MarkdownRemark'' [rejecting_plugin], Call_getAST 0 example_node]
        initial_state) ! 0))
   \<and> run_slots (runs (exec example_parse example_render
        [Invoke_extendNodeType ''MarkdownRemark'' [rejecting_plugin], Call_getAST 0 example_node]
        initial_state) ! 0) ! 0 = Waiting
   \<and> rejection_of (run_phase (runs (exec example_parse example_render
        [Invoke_extendNodeType ''MarkdownRemark'' [rejecting_plugin], Call_getAST 0 example_node]
        initial_state) ! 0))
        (run_plugins (runs (exec example_parse example_render
        [Invoke_extendNodeType ''MarkdownRemark'' [rejecting_plugin], Call_getAST 0 example_node]
        initial_state) ! 0) ! 0) = Some ''boom''
   \<and> run_failed (runs (exec example_parse example_render
        [Invoke_extendNodeType ''MarkdownRemark'' [rejecting_plugin], Call_getAST 0 example_node]
        initial_state) ! 0) = None
   \<and> run_promise (runs (exec example_parse example_render
         [Then_callback 0, Invoke_onNodeCreate example_node, Then_callback 0]
         (settle_plugin 0 0 (exec example_parse example_render
        [Invoke_extendNodeType ''MarkdownRemark'' [rejecting_plugin], Call_getAST 0 example_node]
        initial_state))) ! 0) = Pending
   \<and> run_failed (runs (exec example_parse example_render
         [Then_callback 0, Invoke_onNodeCreate example_node, Then_callback 0]
         (settle_plugin 0 0 (exec example_parse example_render
        [Invoke_extendNodeType ''MarkdownRemark'' [rejecting_plugin], Call_getAST 0 example_node]
        initial_state))) ! 0) = Some ''boom''"
proof -
  let ?s = "exec example_parse example_render
        [Invoke_extendNodeType ''MarkdownRemark'' [rejecting_plugin], Call_getAST 0 example_node]
        initial_state"
  have r: "runs ?s = [\<lparr>run_node = example_node, run_plugins = [rejecting_plugin],
      run_phase = Mutating, run_slots = [Waiting], run_failed = None, run_promise = Pending\<rparr>]"
    by (simp add: step_def extendNodeType_def getAST_def initial_state_def cache_get_def
        example_node_def object_prototype_keys_def rejecting_plugin_def Let_def)
  have h: "0 < length (runs ?s)" "0 < length (run_slots (runs ?s ! 0))"
    "0 < length (run_plugins (runs ?s ! 0))" "run_slots (runs ?s ! 0) ! 0 = Waiting"
    "rejection_of (run_phase (runs ?s ! 0)) (run_plugins (runs ?s ! 0) ! 0) = Some ''boom''"
    unfolding r by (simp_all add: rejection_of_def rejecting_plugin_def)
  have f: "run_failed (runs ?s ! 0) = None" unfolding r by simp
  have c: "(case run_failed (runs ?s ! 0) of None \<Rightarrow> ''boom'' | Some earlier \<Rightarrow> earlier) = ''boom''"
    unfolding r by simp
  show ?thesis
    using h f rejection_never_reaches_cached_promise [OF h, of
        "[Then_callback 0, Invoke_onNodeCreate example_node, Then_callback 0]"]
    unfolding c by blast
qed

section \<open>A plugin with only the mutateSource export\<close>

lemma dispatch_slots:
  assumes "snd (snd (dispatch export called k ps)) = None"
  shows "length (fst (dispatch export called k ps)) = length ps
    \<and> (\<forall>i < length ps. fst (dispatch export called k ps) ! i
          = (if export (ps ! i) = None then Settled else Waiting))"
  using assms
proof (induction ps arbitrary: k)
  case Nil
  then show ?case by simp
next
  case (Cons p ps)
  obtain slots acts thrown where d: "dispatch export called (Suc k) ps = (slots, acts, thrown)"
    by (cases "dispatch export called (Suc k) ps") auto
  from Cons.prems d have t: "thrown = None"
    by (auto split: option.splits)
  from Cons.IH [of "Suc k"] d t have ih: "length slots = length ps"
    "\<forall>i < length ps. slots ! i = (if export (ps ! i) = None then Settled else Waiting)"
    by simp_all
  show ?case
    using Cons.prems d ih by (auto simp: nth_Cons split: option.splits nat.splits)
qed





section \<open>The phase barrier: one parse, after the mutations\<close>


lemma parse_count_simps [simp]:
  "parse_count h [] = 0"
  "parse_count h (a # l) = (if is_parsed h a then Suc (parse_count h l) else parse_count h l)"
  "parse_count h (l @ l') = parse_count h l + parse_count h l'"
  by (simp_all add: parse_count_def)

lemma parse_count_0: "parse_count h l = 0 \<longleftrightarrow> (\<forall>a\<in>set l. \<not> is_parsed h a)"
  by (simp add: parse_count_def filter_empty_conv)

lemma is_parsed_run: "is_parsed h a \<Longrightarrow> action_run a = h"
  by (cases a) simp_all

lemma parse_count_other:
  assumes "\<forall>a\<in>set l. action_run a \<noteq> h"
  shows "parse_count h l = 0"
  using assms is_parsed_run by (auto simp: parse_count_0)

lemma run_ok_extend:
  assumes "run_ok h r l" "parse_count h added = 0"
  shows "run_ok h r (added @ l)"
  unfolding run_ok_def
proof (intro conjI impI)
  assume m: "run_phase r = Mutating"
  show "parse_count h (added @ l) = 0" using assms m by (simp add: run_ok_def)
  assume f: "run_failed r = None"
  show "length (run_slots r) = length (run_plugins r)"
    using assms(1) m f by (simp add: run_ok_def)
  show "\<forall>i<length (run_plugins r).
       run_slots r ! i = Settled \<longrightarrow>
       mutateSource (run_plugins r ! i) \<noteq> None \<longrightarrow>
       Settled_mutateSource h i Fulfil \<in> set (added @ l)"
    using assms(1) m f by (simp add: run_ok_def)
next
  assume "run_phase r \<noteq> Mutating"
  with assms(1) obtain newer older where
    d: "l = newer @ Parsed h (src (run_node r)) # older" "parse_count h newer = 0"
       "parse_count h older = 0" "mutations_fulfilled h (run_plugins r) older"
    unfolding run_ok_def by blast
  show "\<exists>newer older. added @ l = newer @ Parsed h (src (run_node r)) # older
      \<and> parse_count h newer = 0 \<and> parse_count h older = 0
      \<and> mutations_fulfilled h (run_plugins r) older"
    using d assms(2)
    by (intro exI [of _ "added @ newer"] exI [of _ older]) simp
qed

lemma log_ok_update:
  assumes "log_ok s" and "h < length (runs s)"
    and "runs s' = (runs s)[h := r']" and "log s' = added @ log s"
    and "\<forall>a\<in>set added. action_run a = h"
    and "run_ok h r' (added @ log s)"
  shows "log_ok s'"
  unfolding log_ok_def
proof (intro conjI ballI allI impI)
  fix a assume "a \<in> set (log s')"
  then show "action_run a < length (runs s')"
    using assms by (auto simp: log_ok_def)
next
  fix k assume k: "k < length (runs s')"
  show "run_ok k (runs s' ! k) (log s')"
  proof (cases "k = h")
    case True
    then show ?thesis using assms by simp
  next
    case False
    then have "\<forall>a\<in>set added. action_run a \<noteq> k" using assms(5) by simp
    then have "parse_count k added = 0" by (rule parse_count_other)
    moreover have "run_ok k (runs s ! k) (log s)" using assms(1,3) k by (simp add: log_ok_def)
    ultimately show ?thesis using False assms(3,4) by (simp add: run_ok_extend)
  qed
qed

lemma log_ok_append:
  assumes "log_ok s"
    and "runs s' = runs s @ [r]" and "log s' = added @ log s"
    and "\<forall>a\<in>set added. action_run a = length (runs s)"
    and "run_ok (length (runs s)) r (added @ log s)"
  shows "log_ok s'"
  unfolding log_ok_def
proof (intro conjI ballI allI impI)
  fix a assume "a \<in> set (log s')"
  then show "action_run a < length (runs s')"
    using assms by (auto simp: log_ok_def less_Suc_eq)
next
  fix k assume k: "k < length (runs s')"
  show "run_ok k (runs s' ! k) (log s')"
  proof (cases "k = length (runs s)")
    case True
    then show ?thesis using assms by simp
  next
    case False
    with k assms(2) have kl: "k < length (runs s)" by simp
    have "\<forall>a\<in>set added. action_run a \<noteq> k" using assms(4) False by simp
    then have "parse_count k added = 0" by (rule parse_count_other)
    moreover have "run_ok k (runs s ! k) (log s)" using assms(1) kl by (simp add: log_ok_def)
    ultimately show ?thesis using kl assms(2,3) by (simp add: run_ok_extend nth_append)
  qed
qed

lemma log_ok_same:
  assumes "log_ok s" "runs s' = runs s" "log s' = log s"
  shows "log_ok s'"
  using assms by (simp add: log_ok_def)


lemma run_ok_cong:
  assumes "run_ok h r l" and "run_phase r' = run_phase r \<or> (run_phase r \<noteq> Mutating \<and> run_phase r' \<noteq> Mutating)"
    and "run_failed r' = run_failed r" and "run_slots r' = run_slots r"
    and "run_plugins r' = run_plugins r" and "src (run_node r') = src (run_node r)"
  shows "run_ok h r' l"
  using assms unfolding run_ok_def by auto

lemma run_ok_later_phase:
  assumes "run_ok h r l" and "run_phase r \<noteq> Mutating" and "run_phase r' \<noteq> Mutating"
    and "run_plugins r' = run_plugins r" and "src (run_node r') = src (run_node r)"
  shows "run_ok h r' l"
  using assms unfolding run_ok_def by auto

lemma getAST_log_ok:
  assumes "log_ok s"
  shows "log_ok (snd (getAST ps n s))"
proof (cases "cache_get (astPromiseCache s) (node_id n)")
  case (Some v)
  then show ?thesis using assms by (simp add: getAST_hit)
next
  case None
  let ?h = "length (runs s)"
  let ?d = "dispatch mutateSource (Called_mutateSource ?h) 0 ps"
  from getAST_miss(3) [OF None, of ps] obtain r where
    r: "runs (snd (getAST ps n s)) = runs s @ [r]" "run_plugins r = ps" "run_phase r = Mutating"
       "run_slots r = fst ?d" "run_failed r = snd (snd ?d)"
    by blast
  have l: "log (snd (getAST ps n s)) = fst (snd ?d) @ log s"
    by (rule getAST_miss(4) [OF None])
  have acts: "\<forall>a\<in>set (fst (snd ?d)). \<exists>j. a = Called_mutateSource ?h j"
    using dispatch_acts [of "Called_mutateSource ?h" mutateSource 0 ps]
    by (simp add: list_all_iff)
  then have tag: "\<forall>a\<in>set (fst (snd ?d)). action_run a = ?h" by auto
  have "parse_count ?h (fst (snd ?d)) = 0"
    using acts by (auto simp: parse_count_0)
  moreover have "parse_count ?h (log s) = 0"
    using assms by (intro parse_count_other) (auto simp: log_ok_def)
  moreover have "length (run_slots r) = length (run_plugins r)
      \<and> (\<forall>i < length (run_plugins r). run_slots r ! i = Settled
            \<longrightarrow> mutateSource (run_plugins r ! i) \<noteq> None
            \<longrightarrow> Settled_mutateSource ?h i Fulfil \<in> set (fst (snd ?d) @ log s))"
    if "run_failed r = None"
    using dispatch_slots [of mutateSource "Called_mutateSource ?h" 0 ps] that r by auto
  ultimately have "run_ok ?h r (fst (snd ?d) @ log s)"
    using r(3) by (simp add: run_ok_def)
  then show ?thesis
    using log_ok_append [OF assms r(1) l tag] by simp
qed

lemma first_failure_None:
  "first_failure failed outcome = None \<longleftrightarrow> failed = None \<and> outcome = Fulfil"
  by (simp add: first_failure_def split: option.splits settle.splits)

lemma settle_plugin_log_ok:
  assumes "log_ok s"
  shows "log_ok (settle_plugin h i s)"
proof -
  let ?r = "runs s ! h"
  consider
      (same) "settle_plugin h i s = s"
    | (mutating) c where "h < length (runs s)" "i < length (run_slots ?r)"
        "run_phase ?r = Mutating" "mutateSource (run_plugins ?r ! i) = Some c"
        "settle_plugin h i s = s\<lparr>runs := (runs s)[h := ?r
           \<lparr>run_node := (run_node ?r)\<lparr>src := effect c (src (run_node ?r))\<rparr>,
            run_slots := (run_slots ?r)[i := Settled],
            run_failed := first_failure (run_failed ?r) (settles c)\<rparr>],
          log := Settled_mutateSource h i (settles c) # log s\<rparr>"
    | (annotating) c :: "unist capability" and tree where "h < length (runs s)"
        "run_phase ?r = Annotating tree"
        "settle_plugin h i s = s\<lparr>runs := (runs s)[h := ?r
           \<lparr>run_phase := Annotating (effect c tree),
            run_slots := (run_slots ?r)[i := Settled],
            run_failed := first_failure (run_failed ?r) (settles c)\<rparr>],
          log := Settled_annotate h i (settles c) # log s\<rparr>"
  proof (cases "h < length (runs s) \<and> i < length (run_slots ?r)
      \<and> i < length (run_plugins ?r) \<and> run_slots ?r ! i = Waiting")
    case False
    then have "settle_plugin h i s = s" by (auto simp: settle_plugin_def Let_def)
    then show ?thesis by (rule same)
  next
    case en: True
    show ?thesis
    proof (cases "run_phase ?r")
      case Mutating
      show ?thesis
      proof (cases "mutateSource (run_plugins ?r ! i)")
        case None
        then have "settle_plugin h i s = s" using en Mutating by (simp add: settle_plugin_def Let_def)
        then show ?thesis by (rule same)
      next
        case (Some c)
        show ?thesis
          by (rule mutating [of c]) (use en Mutating Some in \<open>simp_all add: settle_plugin_def Let_def\<close>)
      qed
    next
      case (Annotating tree)
      show ?thesis
      proof (cases "annotate (run_plugins ?r ! i)")
        case None
        then have "settle_plugin h i s = s" using en Annotating by (simp add: settle_plugin_def Let_def)
        then show ?thesis by (rule same)
      next
        case (Some c)
        show ?thesis
          by (rule annotating [of tree c]) (use en Annotating Some in \<open>simp_all add: settle_plugin_def Let_def\<close>)
      qed
    next
      case Complete
      then have "settle_plugin h i s = s" using en by (simp add: settle_plugin_def Let_def)
      then show ?thesis by (rule same)
    qed
  qed
  then show ?thesis
  proof cases
    case same
    then show ?thesis using assms by simp
  next
    case mutating
    let ?r' = "?r\<lparr>run_node := (run_node ?r)\<lparr>src := effect c (src (run_node ?r))\<rparr>,
            run_slots := (run_slots ?r)[i := Settled],
            run_failed := first_failure (run_failed ?r) (settles c)\<rparr>"
    have ok: "run_ok h ?r (log s)" using assms mutating(1) by (simp add: log_ok_def)
    have "run_ok h ?r' ([Settled_mutateSource h i (settles c)] @ log s)"
      unfolding run_ok_def
    proof (intro conjI impI)
      show "parse_count h ([Settled_mutateSource h i (settles c)] @ log s) = 0"
        using ok mutating(3) by (simp add: run_ok_def)
      assume f: "run_failed ?r' = None"
      then have f0: "run_failed ?r = None" and fu: "settles c = Fulfil"
        by (simp_all add: first_failure_None)
      show "length (run_slots ?r') = length (run_plugins ?r')"
        using ok mutating(3) f0 by (simp add: run_ok_def)
      show "\<forall>j<length (run_plugins ?r'). run_slots ?r' ! j = Settled \<longrightarrow>
          mutateSource (run_plugins ?r' ! j) \<noteq> None \<longrightarrow>
          Settled_mutateSource h j Fulfil \<in> set ([Settled_mutateSource h i (settles c)] @ log s)"
      proof (intro allI impI)
        fix j
        assume j: "j < length (run_plugins ?r')" "run_slots ?r' ! j = Settled"
          "mutateSource (run_plugins ?r' ! j) \<noteq> None"
        show "Settled_mutateSource h j Fulfil \<in> set ([Settled_mutateSource h i (settles c)] @ log s)"
        proof (cases "j = i")
          case True
          then show ?thesis using fu by simp
        next
          case False
          then have "run_slots ?r ! j = Settled" using j(2) by simp
          then have "Settled_mutateSource h j Fulfil \<in> set (log s)"
            using ok mutating(3) f0 j(1,3) by (simp add: run_ok_def)
          then show ?thesis by simp
        qed
      qed
    next
      assume "run_phase ?r' \<noteq> Mutating"
      then show "\<exists>newer older. [Settled_mutateSource h i (settles c)] @ log s
           = newer @ Parsed h (src (run_node ?r')) # older
         \<and> parse_count h newer = 0 \<and> parse_count h older = 0
         \<and> mutations_fulfilled h (run_plugins ?r') older"
        using mutating(3) by simp
    qed
    then show ?thesis
      using log_ok_update [OF assms mutating(1), of "settle_plugin h i s" ?r'
          "[Settled_mutateSource h i (settles c)]"] mutating(5)
      by simp
  next
    case annotating
    let ?r' = "?r\<lparr>run_phase := Annotating (effect c tree),
            run_slots := (run_slots ?r)[i := Settled],
            run_failed := first_failure (run_failed ?r) (settles c)\<rparr>"
    have ok: "run_ok h ?r (log s)" using assms annotating(1) by (simp add: log_ok_def)
    have "run_ok h ?r' (log s)"
      by (rule run_ok_later_phase [OF ok]) (simp_all add: annotating(2))
    then have "run_ok h ?r' ([Settled_annotate h i (settles c)] @ log s)"
      by (rule run_ok_extend) simp
    then show ?thesis
      using log_ok_update [OF assms annotating(1), of "settle_plugin h i s" ?r'
          "[Settled_annotate h i (settles c)]"] annotating(3)
      by simp
  qed
qed


lemma then_callback_log_ok:
  assumes "log_ok s"
  shows "log_ok (then_callback parse h s)"
proof -
  let ?r = "runs s ! h"
  let ?d = "dispatch annotate (Called_annotate h) 0 (run_plugins ?r)"
  show ?thesis
  proof (cases "h < length (runs s) \<and> run_failed ?r = None
      \<and> list_all (\<lambda>x. x = Settled) (run_slots ?r)")
    case False
    then have "then_callback parse h s = s" by (auto simp: then_callback_def Let_def)
    then show ?thesis using assms by simp
  next
    case en: True
    then have hl: "h < length (runs s)" by simp
    have ok: "run_ok h ?r (log s)" using assms hl by (simp add: log_ok_def)
    show ?thesis
    proof (cases "run_phase ?r")
      case Mutating
      let ?r' = "?r\<lparr>run_phase := Annotating (parse (src (run_node ?r))),
          run_slots := fst ?d, run_failed := snd (snd ?d)\<rparr>"
      let ?added = "fst (snd ?d) @ [Parsed h (src (run_node ?r))]"
      have eq: "then_callback parse h s
          = s\<lparr>runs := (runs s)[h := ?r'], log := ?added @ log s\<rparr>"
        using en Mutating by (cases ?d) (simp add: then_callback_def Let_def)
      have acts: "\<forall>a\<in>set (fst (snd ?d)). \<exists>j. a = Called_annotate h j"
        using dispatch_acts [of "Called_annotate h" annotate 0 "run_plugins ?r"]
        by (simp add: list_all_iff)
      then have tag: "\<forall>a\<in>set ?added. action_run a = h" by auto
      have c0: "parse_count h (fst (snd ?d)) = 0" using acts by (auto simp: parse_count_0)
      have c1: "parse_count h (log s) = 0" using ok Mutating by (simp add: run_ok_def)
      have len: "length (run_slots ?r) = length (run_plugins ?r)"
        using ok Mutating en by (simp add: run_ok_def)
      have mf: "mutations_fulfilled h (run_plugins ?r) (log s)"
        unfolding mutations_fulfilled_def
      proof (intro allI impI)
        fix i assume i: "i < length (run_plugins ?r)" "mutateSource (run_plugins ?r ! i) \<noteq> None"
        have "run_slots ?r ! i = Settled"
          using en i(1) len by (simp add: list_all_length)
        then show "Settled_mutateSource h i Fulfil \<in> set (log s)"
          using ok Mutating en i by (simp add: run_ok_def)
      qed
      have "run_ok h ?r' (?added @ log s)"
        unfolding run_ok_def
      proof (intro conjI impI)
        assume "run_phase ?r' \<noteq> Mutating"
        show "\<exists>newer older. ?added @ log s = newer @ Parsed h (src (run_node ?r')) # older
           \<and> parse_count h newer = 0 \<and> parse_count h older = 0
           \<and> mutations_fulfilled h (run_plugins ?r') older"
          using c0 c1 mf
          by (intro exI [of _ "fst (snd ?d)"] exI [of _ "log s"]) simp
      qed simp_all
      then show ?thesis
        using log_ok_update [OF assms hl, of "then_callback parse h s" ?r' ?added] eq tag
        by simp
    next
      case (Annotating tree)
      let ?r' = "?r\<lparr>run_node := (run_node ?r)\<lparr>ast := Some tree\<rparr>,
          run_phase := Complete, run_slots := [], run_promise := Fulfilled\<rparr>"
      have eq: "then_callback parse h s
          = s\<lparr>runs := (runs s)[h := ?r'], log := [Resolved h] @ log s\<rparr>"
        using en Annotating by (simp add: then_callback_def Let_def)
      have "run_ok h ?r' (log s)"
        by (rule run_ok_later_phase [OF ok]) (simp_all add: Annotating)
      then have "run_ok h ?r' ([Resolved h] @ log s)"
        by (rule run_ok_extend) simp
      then show ?thesis
        using log_ok_update [OF assms hl, of "then_callback parse h s" ?r' "[Resolved h]"] eq
        by simp
    next
      case Complete
      then have "then_callback parse h s = s" using en by (simp add: then_callback_def Let_def)
      then show ?thesis using assms by simp
    qed
  qed
qed

lemma html_callback_log_ok:
  assumes "log_ok s"
  shows "log_ok (html_callback render hp s)"
proof -
  have "html_callback render hp s = s
    \<or> (\<exists>h. html_promises s ! hp = Html_waiting (Promise_handle h) \<and> h < length (runs s)
         \<and> (\<exists>tree. ast (run_node (runs s ! h)) = Some tree
         \<and> html_callback render hp s = s\<lparr>html_promises := (html_promises s)[hp := Html_fulfilled h],
              runs := (runs s)[h := (runs s ! h)
                \<lparr>run_node := (run_node (runs s ! h))\<lparr>html := Some (render tree)\<rparr>\<rparr>]\<rparr>))"
    by (simp add: html_callback_def split: html_promise.splits cache_value.splits
        promise_state.splits option.splits)
  then show ?thesis
  proof (elim disjE exE conjE)
    assume "html_callback render hp s = s"
    then show ?thesis using assms by simp
  next
    fix h tree
    assume hl: "h < length (runs s)"
      and eq: "html_callback render hp s = s\<lparr>html_promises := (html_promises s)[hp := Html_fulfilled h],
              runs := (runs s)[h := (runs s ! h)
                \<lparr>run_node := (run_node (runs s ! h))\<lparr>html := Some (render tree)\<rparr>\<rparr>]\<rparr>"
    let ?r' = "(runs s ! h)\<lparr>run_node := (run_node (runs s ! h))\<lparr>html := Some (render tree)\<rparr>\<rparr>"
    have ok: "run_ok h (runs s ! h) (log s)" using assms hl by (simp add: log_ok_def)
    have "run_ok h ?r' ([] @ log s)"
      using run_ok_cong [OF ok, of ?r'] by simp
    then show ?thesis
      using log_ok_update [OF assms hl, of "html_callback render hp s" ?r' "[]"] eq
      by simp
  qed
qed

lemma getHTML_log_ok:
  assumes "log_ok s"
  shows "log_ok (snd (getHTML ix n s))"
  using getHTML_cases [of ix n s]
proof (elim disjE exE conjE)
  assume "getHTML ix n s = (None, s)"
  then show ?thesis using assms by simp
next
  fix v assume "getHTML ix n s = (Some v, s)"
  then show ?thesis using assms by simp
next
  let ?s1 = "snd (getAST (inst_plugins (invocations s ! ix)) n s)"
  assume eq: "snd (getHTML ix n s) = ?s1
           \<lparr>html_promises := html_promises ?s1 @ [Html_waiting (fst (getAST (inst_plugins (invocations s ! ix)) n s))],
            invocations := (invocations ?s1)
               [ix := (invocations s ! ix)\<lparr>htmlPromisesCache :=
                  (htmlPromisesCache (invocations s ! ix))
                    (node_id n \<mapsto> length (html_promises ?s1))\<rparr>]\<rparr>"
  have "log_ok ?s1" using assms by (rule getAST_log_ok)
  then show ?thesis
    by (rule log_ok_same) (simp_all add: eq)
qed

lemma step_log_ok:
  assumes "log_ok s"
  shows "log_ok (step parse render e s)"
proof (cases e)
  case (Invoke_extendNodeType ty ps)
  then show ?thesis using log_ok_same [OF assms] by (simp add: step_def)
next
  case (Call_getAST ix n)
  then show ?thesis using assms by (simp add: step_def getAST_log_ok)
next
  case (Call_getHTML ix n)
  then show ?thesis using assms by (simp add: step_def getHTML_log_ok)
next
  case (Plugin_settles h i)
  then show ?thesis using assms by (simp add: step_def settle_plugin_log_ok)
next
  case (Then_callback h)
  then show ?thesis using assms by (simp add: step_def then_callback_log_ok)
next
  case (Html_callback hp)
  then show ?thesis using assms by (simp add: step_def html_callback_log_ok)
next
  case (Invoke_onNodeCreate node)
  then show ?thesis using log_ok_same [OF assms] by (simp add: step_def)
qed

lemma exec_log_ok: "log_ok s \<Longrightarrow> log_ok (exec parse render es s)"
  by (induction es arbitrary: s) (simp_all add: step_log_ok)

lemma initial_log_ok: "log_ok initial_state"
  by (simp add: log_ok_def initial_state_def)


lemma parsed_split_unique:
  assumes eq: "n @ Parsed h x # ol = n0 @ Parsed h x0 # o0"
    and "parse_count h n0 = 0" and "parse_count h o0 = 0"
  shows "n = n0 \<and> x = x0 \<and> ol = o0 \<and> parse_count h n = 0"
proof -
  have "parse_count h (n @ Parsed h x # ol) = parse_count h (n0 @ Parsed h x0 # o0)"
    by (simp only: eq)
  then have c: "parse_count h n = 0" using assms(2,3) by simp
  let ?Q = "\<lambda>a. \<not> is_parsed h a"
  have "takeWhile ?Q (n @ Parsed h x # ol) = n @ takeWhile ?Q (Parsed h x # ol)"
    by (rule takeWhile_append2) (use c in \<open>simp add: parse_count_0\<close>)
  moreover have "takeWhile ?Q (n0 @ Parsed h x0 # o0) = n0 @ takeWhile ?Q (Parsed h x0 # o0)"
    by (rule takeWhile_append2) (use assms(2) in \<open>simp add: parse_count_0\<close>)
  ultimately have "n = n0" using eq by simp
  with eq c show ?thesis by simp
qed

lemma getAST_failed_mutating:
  "failed_mutating h s \<Longrightarrow> failed_mutating h (snd (getAST ps n s))"
  using getAST_runs_prefix [of ps n s] by (auto simp: failed_mutating_def nth_append)

lemma getHTML_failed_mutating:
  "failed_mutating h s \<Longrightarrow> failed_mutating h (snd (getHTML ix n s))"
  using getHTML_runs [of ix n s] getAST_failed_mutating [of h s]
  by (auto simp: failed_mutating_def)

lemma settle_plugin_failed_mutating:
  "failed_mutating h s \<Longrightarrow> failed_mutating h (settle_plugin h' i s)"
  by (cases "h' = h")
     (auto simp: failed_mutating_def settle_plugin_def Let_def
       split: phase.splits option.splits)

lemma then_callback_failed_mutating:
  "failed_mutating h s \<Longrightarrow> failed_mutating h (then_callback parse h' s)"
  by (cases "h' = h")
     (auto simp: failed_mutating_def then_callback_def Let_def
       split: phase.splits option.splits prod.splits)

lemma html_callback_failed_mutating:
  "failed_mutating h s \<Longrightarrow> failed_mutating h (html_callback render hp s)"
  by (auto simp: failed_mutating_def html_callback_def nth_list_update
       split: html_promise.splits cache_value.splits promise_state.splits option.splits)

lemma step_failed_mutating:
  "failed_mutating h s \<Longrightarrow> failed_mutating h (step parse render ev s)"
  by (cases ev)
     (simp_all add: step_def getAST_failed_mutating getHTML_failed_mutating
        settle_plugin_failed_mutating then_callback_failed_mutating
        html_callback_failed_mutating, simp_all add: failed_mutating_def)

lemma exec_failed_mutating:
  "failed_mutating h s \<Longrightarrow> failed_mutating h (exec parse render es s)"
  by (induction es arbitrary: s) (simp_all add: step_failed_mutating)

lemma failed_mutating_never_parsed:
  assumes "log_ok s" "failed_mutating h s"
  shows "parse_count h (log (exec parse render es s)) = 0"
proof -
  have "log_ok (exec parse render es s)" using assms(1) by (rule exec_log_ok)
  moreover have "failed_mutating h (exec parse render es s)"
    using assms(2) by (rule exec_failed_mutating)
  ultimately show ?thesis
    by (simp add: log_ok_def failed_mutating_def run_ok_def)
qed

text \<open>
  Claim C3, as stated, fails: a call of \<open>getAST\<close> that populates the cache does not always
  parse. With one plugin whose \<open>mutateSource\<close> promise rejects, the whole first phase has
  settled, the callback has had its turn twice, and nothing is parsed.
\<close>

theorem rejected_mutation_is_never_parsed:
  "run_slots (runs (exec example_parse example_render
       [Invoke_extendNodeType ''MarkdownRemark'' [rejecting_plugin], Call_getAST 0 example_node,
        Plugin_settles 0 0, Then_callback 0, Call_getAST 0 example_node, Then_callback 0]
       initial_state) ! 0) = [Settled]
   \<and> parse_count 0 (log (exec example_parse example_render
       [Invoke_extendNodeType ''MarkdownRemark'' [rejecting_plugin], Call_getAST 0 example_node,
        Plugin_settles 0 0, Then_callback 0, Call_getAST 0 example_node, Then_callback 0]
       initial_state)) = 0"
  by (simp add: step_def extendNodeType_def getAST_def settle_plugin_def then_callback_def
      initial_state_def cache_get_def example_node_def object_prototype_keys_def
      rejecting_plugin_def Let_def first_failure_def)

text \<open>
  Claim C3, amended. In every state the module can reach, and for every run (every call of
  \<open>getAST\<close> that populated the cache): the source is parsed at most once, and exactly once
  as soon as the run has left its first phase; wherever the parse stands in the log, the
  fulfilled settlement of every \<open>mutateSource\<close> call of the run stands before it, no other
  parse of the run exists, and the source that was parsed is the source of the record, as
  the plugins left it; when every promise of the first phase is fulfilled, the callback
  parses that source and starts the second phase with its tree; and a run that failed in its
  first phase (a \<open>mutateSource\<close> call threw, or its promise rejected) is never parsed.
\<close>

theorem parse_once_after_all_mutations:
  assumes "h < length (runs (exec parse render es initial_state))"
  shows "parse_count h (log (exec parse render es initial_state)) \<le> 1
    \<and> (parse_count h (log (exec parse render es initial_state)) = 1
        \<longleftrightarrow> run_phase (runs (exec parse render es initial_state) ! h) \<noteq> Mutating)
    \<and> (\<forall>newer older source.
          log (exec parse render es initial_state) = newer @ Parsed h source # older \<longrightarrow>
            (\<forall>i < length (run_plugins (runs (exec parse render es initial_state) ! h)).
                mutateSource (run_plugins (runs (exec parse render es initial_state) ! h) ! i) \<noteq> None
                \<longrightarrow> Settled_mutateSource h i Fulfil \<in> set older)
            \<and> parse_count h older = 0 \<and> parse_count h newer = 0
            \<and> source = src (run_node (runs (exec parse render es initial_state) ! h)))
    \<and> (run_phase (runs (exec parse render es initial_state) ! h) = Mutating
        \<and> run_failed (runs (exec parse render es initial_state) ! h) = None
        \<and> list_all (\<lambda>x. x = Settled) (run_slots (runs (exec parse render es initial_state) ! h))
        \<longrightarrow> run_phase (runs (then_callback parse h (exec parse render es initial_state)) ! h)
              = Annotating (parse (src (run_node (runs (exec parse render es initial_state) ! h))))
            \<and> parse_count h (log (then_callback parse h (exec parse render es initial_state))) = 1)
    \<and> (run_phase (runs (exec parse render es initial_state) ! h) = Mutating
        \<and> run_failed (runs (exec parse render es initial_state) ! h) \<noteq> None
        \<longrightarrow> (\<forall>later. parse_count h
              (log (exec parse render later (exec parse render es initial_state))) = 0))"
proof -
  let ?S = "exec parse render es initial_state"
  let ?r = "runs ?S ! h"
  have inv: "log_ok ?S" by (rule exec_log_ok [OF initial_log_ok])
  then have ok: "run_ok h ?r (log ?S)" using assms by (simp add: log_ok_def)
  have later: "\<exists>newer older. log ?S = newer @ Parsed h (src (run_node ?r)) # older
      \<and> parse_count h newer = 0 \<and> parse_count h older = 0
      \<and> mutations_fulfilled h (run_plugins ?r) older" if "run_phase ?r \<noteq> Mutating"
    using ok that by (simp add: run_ok_def)
  have first: "parse_count h (log ?S) = 0" if "run_phase ?r = Mutating"
    using ok that by (simp add: run_ok_def)
  have one: "parse_count h (log ?S) = 1" if "run_phase ?r \<noteq> Mutating"
    using later [OF that] by auto
  have p1: "parse_count h (log ?S) \<le> 1"
    using first one by (cases "run_phase ?r = Mutating") simp_all
  have p2: "parse_count h (log ?S) = 1 \<longleftrightarrow> run_phase ?r \<noteq> Mutating"
    using first one by (cases "run_phase ?r = Mutating") simp_all
  have p3: "(\<forall>i < length (run_plugins ?r). mutateSource (run_plugins ?r ! i) \<noteq> None
                \<longrightarrow> Settled_mutateSource h i Fulfil \<in> set older)
            \<and> parse_count h older = 0 \<and> parse_count h newer = 0
            \<and> source = src (run_node ?r)"
    if d: "log ?S = newer @ Parsed h source # older" for newer older source
  proof -
    have "parse_count h (log ?S) \<noteq> 0" by (simp add: d)
    with first have "run_phase ?r \<noteq> Mutating" by blast
    from later [OF this] obtain n0 o0 where
      d0: "log ?S = n0 @ Parsed h (src (run_node ?r)) # o0" "parse_count h n0 = 0"
        "parse_count h o0 = 0" "mutations_fulfilled h (run_plugins ?r) o0"
      by blast
    from d d0(1) have "newer @ Parsed h source # older = n0 @ Parsed h (src (run_node ?r)) # o0"
      by simp
    from parsed_split_unique [OF this d0(2,3)] d0 show ?thesis
      by (simp add: mutations_fulfilled_def)
  qed
  have p4: "run_phase (runs (then_callback parse h ?S) ! h) = Annotating (parse (src (run_node ?r)))
            \<and> parse_count h (log (then_callback parse h ?S)) = 1"
    if en: "run_phase ?r = Mutating \<and> run_failed ?r = None
        \<and> list_all (\<lambda>x. x = Settled) (run_slots ?r)"
  proof -
    have ph: "run_phase (runs (then_callback parse h ?S) ! h) = Annotating (parse (src (run_node ?r)))"
      using en assms
      by (cases "dispatch annotate (Called_annotate h) 0 (run_plugins ?r)")
         (simp add: then_callback_def Let_def)
    have "log_ok (then_callback parse h ?S)" using inv by (rule then_callback_log_ok)
    then have "run_ok h (runs (then_callback parse h ?S) ! h) (log (then_callback parse h ?S))"
      using assms by (simp add: log_ok_def)
    then have "\<exists>newer older. log (then_callback parse h ?S)
        = newer @ Parsed h (src (run_node (runs (then_callback parse h ?S) ! h))) # older
      \<and> parse_count h newer = 0 \<and> parse_count h older = 0"
      using ph by (auto simp: run_ok_def)
    then have "parse_count h (log (then_callback parse h ?S)) = 1" by auto
    with ph show ?thesis by simp
  qed
  have p5: "\<forall>later. parse_count h (log (exec parse render later ?S)) = 0"
    if "run_phase ?r = Mutating \<and> run_failed ?r \<noteq> None"
    using failed_mutating_never_parsed [OF inv, of h] that assms
    by (simp add: failed_mutating_def)
  from p1 p2 p3 p4 p5 show ?thesis by blast
qed

theorem parse_once_after_all_mutations_witness:
  "0 < length (runs (exec example_parse example_render
        [Invoke_extendNodeType ''MarkdownRemark'' [mutating_plugin], Call_getAST 0 example_node,
         Plugin_settles 0 0, Then_callback 0] initial_state))
   \<and> parse_count 0 (log (exec example_parse example_render
        [Invoke_extendNodeType ''MarkdownRemark'' [mutating_plugin], Call_getAST 0 example_node,
         Plugin_settles 0 0, Then_callback 0] initial_state)) = 1"
proof -
  let ?S = "exec example_parse example_render
        [Invoke_extendNodeType ''MarkdownRemark'' [mutating_plugin], Call_getAST 0 example_node,
         Plugin_settles 0 0, Then_callback 0] initial_state"
  have r: "runs ?S = [\<lparr>run_node = example_node\<lparr>src := ''# T!''\<rparr>, run_plugins = [mutating_plugin],
      run_phase = Annotating (example_parse ''# T!''), run_slots = [Settled], run_failed = None,
      run_promise = Pending\<rparr>]"
    by (simp add: step_def extendNodeType_def getAST_def settle_plugin_def then_callback_def
        initial_state_def cache_get_def example_node_def object_prototype_keys_def
        mutating_plugin_def Let_def first_failure_def)
  have h: "0 < length (runs ?S)" unfolding r by simp
  have p: "run_phase (runs ?S ! 0) \<noteq> Mutating" unfolding r by simp
  show ?thesis
    using h p parse_once_after_all_mutations [OF h, THEN conjunct2, THEN conjunct1]
    by blast
qed

end
